theory Spec2Isabelle
  imports Main "HOL-Library.Word" "HOL-Library.Monad_Syntax"
begin

unbundle bit_operations_syntax

section \<open>Data model\<close>

text \<open>
  The simulator comes in four variants, one per source file, which share the address
  translation, the fault handler and the replacement routine and differ in the
  bookkeeping of references, in the choice of the victim and in how a free frame is
  occupied: \<^verbatim>\<open>sim_pag_fifo.c\<close>, \<^verbatim>\<open>sim_pag_random.c\<close>,
  \<^verbatim>\<open>sim_pag_fifo2ch.c\<close> and \<^verbatim>\<open>sim_pag_lru.c\<close>.
\<close>

datatype policy = FIFO | Random | SecondChance | LRU

text \<open>
  Modelled from the spec: the declarations of \<^verbatim>\<open>sim_paging.h\<close> (the types
  \<^verbatim>\<open>spage\<close>, \<^verbatim>\<open>sframe\<close> and \<^verbatim>\<open>ssystem\<close>) are not among the sources.
  The fields are the ones the code reads and writes. Flags that the code only sets to
  0 or 1 and tests are booleans; indices and sizes are C \<^verbatim>\<open>int\<close>s, kept as integers
  (the code does no arithmetic on them beyond \<^verbatim>\<open>i + 1\<close> below the number of frames);
  the logical clock and the timestamps are unsigned and wrap, so they are 32-bit words.
  The cumulative counters are C \<^verbatim>\<open>int\<close>s that the code only increments with \<^verbatim>\<open>++\<close>:
  they are 32-bit words too, so that the increment of the largest value wraps to the
  smallest one as it does on the machine (\<open>sint\<close> reads the signed value).
\<close>

record spage =
  present :: bool
  frame :: int
  modified :: bool
  referenced :: bool
  timestamp :: "32 word"

record sframe =
  page :: int
  "next" :: int

record ssystem =
  pagsz :: int
  numpags :: int
  pgt :: "spage list"
  lru :: int
  clock :: "32 word"
  numframes :: int
  frt :: "sframe list"
  listfree :: int
  listoccupied :: int
  numrefsread :: "32 word"
  numrefswrite :: "32 word"
  numpagefaults :: "32 word"
  numpgwriteback :: "32 word"
  numillegalrefs :: "32 word"
  detailed :: bool

text \<open>
  The two tables are arrays allocated by the caller; the length of the list is the
  size of the allocation. An access outside the array is undefined behaviour in C,
  and so is a division by zero: both are the result \<open>None\<close> of the model.
\<close>

definition rd :: "'a list \<Rightarrow> int \<Rightarrow> 'a option" where
  "rd xs i = (if 0 \<le> i \<and> i < int (length xs) then Some (xs ! nat i) else None)"

definition wr :: "'a list \<Rightarrow> int \<Rightarrow> ('a \<Rightarrow> 'a) \<Rightarrow> 'a list option" where
  "wr xs i f =
     (if 0 \<le> i \<and> i < int (length xs) then Some (xs[nat i := f (xs ! nat i)]) else None)"

text \<open>Conversions between \<^verbatim>\<open>int\<close> and \<^verbatim>\<open>unsigned\<close> (32 bits, two's complement).\<close>

definition to_unsigned :: "int \<Rightarrow> 32 word" where
  "to_unsigned i = word_of_int i"

definition to_int :: "32 word \<Rightarrow> int" where
  "to_int w = sint w"

text \<open>\<^verbatim>\<open>memset(S->pgt, 0, sizeof(spage) * S->numpags)\<close> leaves this descriptor in every page.\<close>

definition zero_page :: spage where
  "zero_page = \<lparr>present = False, frame = 0, modified = False, referenced = False,
                 timestamp = 0\<rparr>"

section \<open>Initialisation\<close>

text \<open>
  The loop \<^verbatim>\<open>for (i = 0; i < S->numframes - 1; i++)\<close> of \<^verbatim>\<open>init_tables\<close>; the result
  carries the final value of \<^verbatim>\<open>i\<close>, which the code uses after the loop. The bound
  \<^verbatim>\<open>S->numframes - 1\<close> overflows when \<^verbatim>\<open>numframes\<close> is the least \<^verbatim>\<open>int\<close>, which is
  undefined like an access outside a table; so is the \<^verbatim>\<open>memset\<close> of more pages than are
  allocated, or of a negative number of them.
\<close>

function init_loop :: "sframe list \<Rightarrow> int \<Rightarrow> int \<Rightarrow> (sframe list \<times> int) option" where
  "init_loop fs n i =
     (if i < n - 1 then
        (case wr fs i (\<lambda>e. e\<lparr>page := - 1, next := i + 1\<rparr>) of
           None \<Rightarrow> None
         | Some fs' \<Rightarrow> init_loop fs' n (i + 1))
      else Some (fs, i))"
  by pat_completeness auto
termination
  by (relation "measure (\<lambda>(fs, n, i). nat (n - 1 - i))") auto

declare init_loop.simps [simp del]

definition init_tables :: "policy \<Rightarrow> ssystem \<Rightarrow> ssystem option" where
  "init_tables pol S =
     (if numpags S < 0 \<or> int (length (pgt S)) < numpags S then None
      else if numframes S - 1 < - (2 ^ 31) then None
      else do {
        let S1 = S\<lparr>pgt := replicate (nat (numpags S)) zero_page
                            @ drop (nat (numpags S)) (pgt S)\<rparr>;
        let S2 = (if pol = SecondChance then S1 else S1\<lparr>lru := - 1, clock := 0\<rparr>);
        (fs, i) \<leftarrow> init_loop (frt S2) (numframes S2) 0;
        fs' \<leftarrow> wr fs i (\<lambda>e. e\<lparr>page := - 1, next := 0\<rparr>);
        Some (S2\<lparr>frt := fs', listfree := i, listoccupied := - 1\<rparr>)
      })"

section \<open>Reference accounting\<close>

text \<open>
  \<^verbatim>\<open>reference_page\<close>: the FIFO and Random variants count the access and mark a written
  page; the second-chance variant also sets the referenced bit, the LRU variant stamps
  the page with the clock and advances the clock (which wraps; the code only prints a
  message then).
\<close>

definition count_reference :: "ssystem \<Rightarrow> int \<Rightarrow> char \<Rightarrow> ssystem option" where
  "count_reference S pg op =
     (if op = CHR ''R'' then Some (S\<lparr>numrefsread := numrefsread S + 1\<rparr>)
      else if op = CHR ''W'' then do {
        t \<leftarrow> wr (pgt S) pg (\<lambda>d. d\<lparr>modified := True\<rparr>);
        Some (S\<lparr>pgt := t, numrefswrite := numrefswrite S + 1\<rparr>)
      }
      else Some S)"

fun reference_page :: "policy \<Rightarrow> ssystem \<Rightarrow> int \<Rightarrow> char \<Rightarrow> ssystem option" where
  "reference_page FIFO S pg op = count_reference S pg op"
| "reference_page Random S pg op = count_reference S pg op"
| "reference_page SecondChance S pg op = do {
     S1 \<leftarrow> count_reference S pg op;
     t \<leftarrow> wr (pgt S1) pg (\<lambda>d. d\<lparr>referenced := True\<rparr>);
     Some (S1\<lparr>pgt := t\<rparr>)
   }"
| "reference_page LRU S pg op = do {
     S1 \<leftarrow> count_reference S pg op;
     t \<leftarrow> wr (pgt S1) pg (\<lambda>d. d\<lparr>timestamp := clock S1\<rparr>);
     Some (S1\<lparr>pgt := t, clock := clock S1 + 1\<rparr>)
   }"

section \<open>Occupying a free frame\<close>

text \<open>
  The FIFO and second-chance variants link the frame into the circular list of occupied
  frames, after the current last one, and make it the last; the Random and LRU variants
  do not touch the list. The LRU variant writes neither \<^verbatim>\<open>modified\<close> nor the links,
  and sets \<^verbatim>\<open>referenced\<close>.
\<close>

definition link_occupied :: "ssystem \<Rightarrow> int \<Rightarrow> ssystem option" where
  "link_occupied S fr = do {
     fs \<leftarrow> (if listoccupied S = - 1 then wr (frt S) fr (\<lambda>e. e\<lparr>next := fr\<rparr>)
            else do {
              l \<leftarrow> rd (frt S) (listoccupied S);
              fs1 \<leftarrow> wr (frt S) fr (\<lambda>e. e\<lparr>next := next l\<rparr>);
              wr fs1 (listoccupied S) (\<lambda>e. e\<lparr>next := fr\<rparr>)
            });
     Some (S\<lparr>frt := fs, listoccupied := fr\<rparr>)
   }"

fun occupy_free_frame :: "policy \<Rightarrow> ssystem \<Rightarrow> int \<Rightarrow> int \<Rightarrow> ssystem option" where
  "occupy_free_frame FIFO S fr pg = do {
     S1 \<leftarrow> link_occupied S fr;
     t \<leftarrow> wr (pgt S1) pg (\<lambda>d. d\<lparr>present := True, frame := fr, modified := False\<rparr>);
     fs \<leftarrow> wr (frt S1) fr (\<lambda>e. e\<lparr>page := pg\<rparr>);
     Some (S1\<lparr>pgt := t, frt := fs\<rparr>)
   }"
| "occupy_free_frame Random S fr pg = do {
     t \<leftarrow> wr (pgt S) pg (\<lambda>d. d\<lparr>present := True, frame := fr, modified := False\<rparr>);
     fs \<leftarrow> wr (frt S) fr (\<lambda>e. e\<lparr>page := pg\<rparr>);
     Some (S\<lparr>pgt := t, frt := fs\<rparr>)
   }"
| "occupy_free_frame SecondChance S fr pg = do {
     S1 \<leftarrow> link_occupied S fr;
     t \<leftarrow> wr (pgt S1) pg
           (\<lambda>d. d\<lparr>present := True, frame := fr, modified := False, referenced := True\<rparr>);
     fs \<leftarrow> wr (frt S1) fr (\<lambda>e. e\<lparr>page := pg\<rparr>);
     Some (S1\<lparr>pgt := t, frt := fs\<rparr>)
   }"
| "occupy_free_frame LRU S fr pg = do {
     t \<leftarrow> wr (pgt S) pg (\<lambda>d. d\<lparr>frame := fr\<rparr>);
     fs \<leftarrow> wr (frt S) fr (\<lambda>e. e\<lparr>page := pg\<rparr>);
     t' \<leftarrow> wr t pg (\<lambda>d. d\<lparr>present := True, referenced := True\<rparr>);
     Some (S\<lparr>pgt := t', frt := fs\<rparr>)
   }"

section \<open>Replacing a page\<close>

text \<open>\<^verbatim>\<open>replace_page\<close> is the same in the four variants.\<close>

definition replace_page :: "ssystem \<Rightarrow> int \<Rightarrow> int \<Rightarrow> ssystem option" where
  "replace_page S victim newpage = do {
     v \<leftarrow> rd (pgt S) victim;
     let fr = frame v;
     let S1 = (if modified v then S\<lparr>numpgwriteback := numpgwriteback S + 1\<rparr> else S);
     t \<leftarrow> wr (pgt S1) victim (\<lambda>d. d\<lparr>present := False\<rparr>);
     t' \<leftarrow> wr t newpage (\<lambda>d. d\<lparr>present := True, frame := fr, modified := False\<rparr>);
     fs \<leftarrow> wr (frt S1) fr (\<lambda>e. e\<lparr>page := newpage\<rparr>);
     Some (S1\<lparr>pgt := t', frt := fs\<rparr>)
   }"

section \<open>Choosing the victim\<close>

text \<open>
  \<^verbatim>\<open>myrandom(from, size)\<close>: the draw \<^verbatim>\<open>(unsigned)(rand() / (RAND_MAX + 1.0) * size)\<close>
  is floating-point arithmetic on the state of the C library, and is a parameter of the
  model; the clamping that follows is the code's.
\<close>

definition myrandom :: "32 word \<Rightarrow> 32 word \<Rightarrow> 32 word \<Rightarrow> 32 word" where
  "myrandom draw from sz =
     (let n = from + draw in
      if n > from + sz - 1 then from + sz - 1
      else if n < from then from
      else n)"

text \<open>
  The second-chance walk \<^verbatim>\<open>while (1)\<close>: every turn that does not leave the loop clears
  one referenced bit that was set, so the number of set bits is a measure.
\<close>

function second_chance_walk :: "ssystem \<Rightarrow> (ssystem \<times> int) option" where
  "second_chance_walk S =
     (case rd (frt S) (listoccupied S) of
        None \<Rightarrow> None
      | Some l \<Rightarrow>
          (case rd (frt S) (next l) of
             None \<Rightarrow> None
           | Some e \<Rightarrow>
               (case rd (pgt S) (page e) of
                  None \<Rightarrow> None
                | Some d \<Rightarrow>
                    if referenced d then
                      second_chance_walk
                        (S\<lparr>pgt := (pgt S)[nat (page e) := d\<lparr>referenced := False\<rparr>],
                           listoccupied := next l\<rparr>)
                    else Some (S, page e))))"
  by pat_completeness auto

termination second_chance_walk
proof (relation "measure (\<lambda>S. length (filter referenced (pgt S)))")
  show "wf (measure (\<lambda>S. length (filter referenced (pgt S))))" by simp
next
  fix S :: ssystem and l e d
  assume "rd (pgt S) (page e) = Some d" and r: "referenced d"
  then have i: "nat (page e) < length (pgt S)" and d: "d = pgt S ! nat (page e)"
    by (auto simp: rd_def split: if_splits)
  define t where "t = pgt S"
  define k where "k = nat (page e)"
  have k: "k < length t" and rk: "referenced (t ! k)"
    using i d r by (simp_all add: t_def k_def)
  have t: "t = take k t @ (t ! k) # drop (Suc k) t"
    using k by (simp add: id_take_nth_drop)
  have u: "t[k := (t ! k)\<lparr>referenced := False\<rparr>]
             = take k t @ ((t ! k)\<lparr>referenced := False\<rparr>) # drop (Suc k) t"
    using k by (simp add: upd_conv_take_nth_drop)
  have "length (filter referenced (take k t @ (t ! k) # drop (Suc k) t))
          = Suc (length (filter referenced
                   (take k t @ ((t ! k)\<lparr>referenced := False\<rparr>) # drop (Suc k) t)))"
    using rk by simp
  with t u have "length (filter referenced (t[k := (t ! k)\<lparr>referenced := False\<rparr>]))
                   < length (filter referenced t)"
    by simp
  then show "(S\<lparr>pgt := (pgt S)[nat (page e) := d\<lparr>referenced := False\<rparr>],
            listoccupied := next l\<rparr>, S)
          \<in> measure (\<lambda>S. length (filter referenced (pgt S)))"
    using d by (simp add: t_def k_def)
qed

text \<open>
  The scan \<^verbatim>\<open>for (int i = 0; i < S->numframes; i++)\<close> of the LRU variant, with the
  frame chosen so far.
\<close>

function lru_scan :: "ssystem \<Rightarrow> int \<Rightarrow> int \<Rightarrow> int option" where
  "lru_scan S i fr =
     (if i < numframes S then
        (let fr1 = (if fr = - 1 then i else fr) in
         case rd (frt S) i of
           None \<Rightarrow> None
         | Some ei \<Rightarrow>
             (case rd (pgt S) (page ei) of
                None \<Rightarrow> None
              | Some di \<Rightarrow>
                  (case rd (frt S) fr1 of
                     None \<Rightarrow> None
                   | Some ef \<Rightarrow>
                       (case rd (pgt S) (page ef) of
                          None \<Rightarrow> None
                        | Some df \<Rightarrow>
                            lru_scan S (i + 1)
                              (if timestamp di < timestamp df then i else fr1)))))
      else Some fr)"
  by pat_completeness auto
termination
  by (relation "measure (\<lambda>(S, i, fr). nat (numframes S - i))") auto

declare second_chance_walk.simps [simp del] lru_scan.simps [simp del]

fun choose_page_to_be_replaced ::
  "policy \<Rightarrow> 32 word \<Rightarrow> ssystem \<Rightarrow> (ssystem \<times> int) option" where
  "choose_page_to_be_replaced FIFO draw S = do {
     l \<leftarrow> rd (frt S) (listoccupied S);
     e \<leftarrow> rd (frt S) (next l);
     Some (S\<lparr>listoccupied := next l\<rparr>, page e)
   }"
| "choose_page_to_be_replaced Random draw S = do {
     e \<leftarrow> rd (frt S) (to_int (myrandom draw 0 (to_unsigned (numframes S))));
     Some (S, page e)
   }"
| "choose_page_to_be_replaced SecondChance draw S = second_chance_walk S"
| "choose_page_to_be_replaced LRU draw S = do {
     fr \<leftarrow> lru_scan S 0 (- 1);
     e \<leftarrow> rd (frt S) fr;
     Some (S, page e)
   }"

section \<open>The fault handler and the MMU\<close>

text \<open>
  The page number \<^verbatim>\<open>virtual_addr / S->pagsz\<close> is an unsigned division whose result is
  stored in an \<^verbatim>\<open>int\<close>; the offset likewise.
\<close>

definition page_number :: "ssystem \<Rightarrow> 32 word \<Rightarrow> int" where
  "page_number S virtual_addr = to_int (virtual_addr div to_unsigned (pagsz S))"

definition page_offset :: "ssystem \<Rightarrow> 32 word \<Rightarrow> int" where
  "page_offset S virtual_addr = to_int (virtual_addr mod to_unsigned (pagsz S))"

definition take_free_frame :: "ssystem \<Rightarrow> (ssystem \<times> int) option" where
  "take_free_frame S = do {
     let last = listfree S;
     l \<leftarrow> rd (frt S) last;
     let fr = next l;
     if fr = last then Some (S\<lparr>listfree := - 1\<rparr>, fr)
     else do {
       e \<leftarrow> rd (frt S) fr;
       fs \<leftarrow> wr (frt S) last (\<lambda>x. x\<lparr>next := next e\<rparr>);
       Some (S\<lparr>frt := fs\<rparr>, fr)
     }
   }"

definition handle_page_fault ::
  "policy \<Rightarrow> 32 word \<Rightarrow> ssystem \<Rightarrow> 32 word \<Rightarrow> ssystem option" where
  "handle_page_fault pol draw S0 virtual_addr =
     (let S = S0\<lparr>numpagefaults := numpagefaults S0 + 1\<rparr> in
      if to_unsigned (pagsz S) = 0 then None
      else
        let pg = page_number S virtual_addr in
        if listfree S \<noteq> - 1 then do {
          (S1, fr) \<leftarrow> take_free_frame S;
          occupy_free_frame pol S1 fr pg
        }
        else do {
          (S1, victim) \<leftarrow> choose_page_to_be_replaced pol draw S;
          replace_page S1 victim pg
        })"

text \<open>
  \<^verbatim>\<open>sim_mmu\<close> returns the new state and the physical address. The product
  \<^verbatim>\<open>frame * S->pagsz + offset\<close> is computed on \<^verbatim>\<open>int\<close>s and converted to
  \<^verbatim>\<open>unsigned\<close>, which is the value modulo \<open>2 ^ 32\<close>. Detailed mode only prints.
\<close>

definition sim_mmu ::
  "policy \<Rightarrow> 32 word \<Rightarrow> ssystem \<Rightarrow> 32 word \<Rightarrow> char \<Rightarrow> (ssystem \<times> 32 word) option" where
  "sim_mmu pol draw S virtual_addr op =
     (if to_unsigned (pagsz S) = 0 then None
      else
        let pg = page_number S virtual_addr;
            offset = page_offset S virtual_addr
        in
        if pg < 0 \<or> pg \<ge> numpags S then
          Some (S\<lparr>numillegalrefs := numillegalrefs S + 1\<rparr>, NOT 0)
        else do {
          d \<leftarrow> rd (pgt S) pg;
          S1 \<leftarrow> (if \<not> present d then handle_page_fault pol draw S virtual_addr else Some S);
          d1 \<leftarrow> rd (pgt S1) pg;
          let fr = frame d1;
          let physical_addr = to_unsigned (fr * pagsz S1 + offset);
          S2 \<leftarrow> reference_page pol S1 pg op;
          Some (S2, physical_addr)
        })"

section \<open>Runs\<close>

text \<open>
  A run feeds a trace of accesses to \<^verbatim>\<open>sim_mmu\<close>, one after the other; an access is
  the draw of the random generator for that call (used by the Random variant only), the
  virtual address and the operation.
\<close>

fun run :: "policy \<Rightarrow> ssystem \<Rightarrow> (32 word \<times> 32 word \<times> char) list \<Rightarrow> ssystem option" where
  "run pol S [] = Some S"
| "run pol S ((draw, virtual_addr, op) # tr) =
     (case sim_mmu pol draw S virtual_addr op of
        None \<Rightarrow> None
      | Some (S', physical_addr) \<Rightarrow> run pol S' tr)"

text \<open>Initialising the tables and then running a trace.\<close>

definition simulate ::
  "policy \<Rightarrow> ssystem \<Rightarrow> (32 word \<times> 32 word \<times> char) list \<Rightarrow> ssystem option" where
  "simulate pol S tr = (case init_tables pol S of None \<Rightarrow> None | Some S1 \<Rightarrow> run pol S1 tr)"

text \<open>
  \<open>resident_during pol S tr p\<close>: page \<open>p\<close> is present after every access of the trace
  (so it is not evicted on the way); \<open>writes_to S p tr\<close>: some access of the trace
  writes to page \<open>p\<close>.
\<close>

fun resident_during ::
  "policy \<Rightarrow> ssystem \<Rightarrow> (32 word \<times> 32 word \<times> char) list \<Rightarrow> nat \<Rightarrow> bool" where
  "resident_during pol S [] p = True"
| "resident_during pol S ((draw, virtual_addr, op) # tr) p =
     (case sim_mmu pol draw S virtual_addr op of
        None \<Rightarrow> False
      | Some (S', physical_addr) \<Rightarrow> present (pgt S' ! p) \<and> resident_during pol S' tr p)"

definition writes_to :: "ssystem \<Rightarrow> nat \<Rightarrow> (32 word \<times> 32 word \<times> char) list \<Rightarrow> bool" where
  "writes_to S p tr =
     list_ex (\<lambda>(draw, virtual_addr, op). page_number S virtual_addr = int p \<and> op = CHR ''W'') tr"

text \<open>
  A system as a caller hands it to \<^verbatim>\<open>init_tables\<close>: the configuration is set, the
  two tables are allocated with the configured sizes, the counters are zero. It is the
  concrete input of the examples below.
\<close>

definition fresh_system :: "int \<Rightarrow> int \<Rightarrow> int \<Rightarrow> ssystem" where
  "fresh_system psz np nf =
     \<lparr>pagsz = psz, numpags = np, pgt = replicate (nat np) zero_page, lru = 0, clock = 0,
      numframes = nf, frt = replicate (nat nf) \<lparr>page = 0, next = 0\<rparr>,
      listfree = 0, listoccupied = 0, numrefsread = 0, numrefswrite = 0,
      numpagefaults = 0, numpgwriteback = 0, numillegalrefs = 0, detailed = False\<rparr>"


section \<open>The two circular lists\<close>

text \<open>
  The frames of a circular list, read off the frame table: from the frame after the
  anchor (the oldest) along the \<^verbatim>\<open>next\<close> links to the anchor (the last), which closes
  the circle; the anchor \<open>- 1\<close> is the empty list. The walk stops after as many steps
  as the table has frames, so it is defined on every table.
\<close>

fun walk :: "sframe list \<Rightarrow> int \<Rightarrow> int \<Rightarrow> nat \<Rightarrow> int list" where
  "walk fs anchor cur 0 = []"
| "walk fs anchor cur (Suc n) =
     (if cur = anchor then [cur]
      else case rd fs cur of
             None \<Rightarrow> []
           | Some e \<Rightarrow> cur # walk fs anchor (next e) n)"

definition ring :: "sframe list \<Rightarrow> int \<Rightarrow> int list" where
  "ring fs anchor =
     (if anchor = - 1 then []
      else case rd fs anchor of
             None \<Rightarrow> []
           | Some l \<Rightarrow> walk fs anchor (next l) (length fs))"

definition free_ring :: "ssystem \<Rightarrow> int list" where
  "free_ring S = ring (frt S) (listfree S)"

definition occupied_ring :: "ssystem \<Rightarrow> int list" where
  "occupied_ring S = ring (frt S) (listoccupied S)"

definition ring_partition :: "ssystem \<Rightarrow> bool" where
  "ring_partition S \<longleftrightarrow>
     set (free_ring S) \<inter> set (occupied_ring S) = {}
     \<and> set (free_ring S) \<union> set (occupied_ring S) = {0..<numframes S}"

text \<open>
  The same lists as a relation: \<open>path fs x as y\<close> says that \<open>as\<close> are the frames met
  from \<open>x\<close> along the links until \<open>y\<close> is reached, and \<open>is_ring fs anchor xs\<close> that
  \<open>xs\<close> is the circular list anchored at \<open>anchor\<close>, oldest frame first, anchor last.
\<close>

primrec path :: "sframe list \<Rightarrow> int \<Rightarrow> nat list \<Rightarrow> int \<Rightarrow> bool" where
  "path fs x [] y \<longleftrightarrow> x = y"
| "path fs x (a # as) y \<longleftrightarrow> x = int a \<and> path fs (next (fs ! a)) as y"

definition is_ring :: "sframe list \<Rightarrow> int \<Rightarrow> nat list \<Rightarrow> bool" where
  "is_ring fs anchor xs \<longleftrightarrow>
     (if xs = [] then anchor = - 1
      else anchor = int (last xs) \<and> path fs (next (fs ! last xs)) (butlast xs) anchor)"

section \<open>Well-formed states\<close>

text \<open>
  Only the FIFO and second-chance variants keep the list of occupied frames; in the
  Random and LRU variants \<^verbatim>\<open>listoccupied\<close> stays \<open>- 1\<close> and the occupied frames are
  the ones outside the free list.
\<close>

definition uses_ring :: "policy \<Rightarrow> bool" where
  "uses_ring pol \<longleftrightarrow> pol = FIFO \<or> pol = SecondChance"

text \<open>
  \<open>state_inv pol S fl ol\<close>: the configuration is usable (non-zero page size, at least one
  frame, tables of the configured sizes); \<open>fl\<close> and \<open>ol\<close> are the free and the occupied
  frames, every frame is in exactly one of them, and they are linked as the variant
  links them; every occupied frame holds a page that is present and points back to the
  frame, and every present page is in an occupied frame that holds it. In the LRU
  variant, as long as a frame is free the absent pages are unmodified.
\<close>

definition state_inv :: "policy \<Rightarrow> ssystem \<Rightarrow> nat list \<Rightarrow> nat list \<Rightarrow> bool" where
  "state_inv pol S fl ol \<longleftrightarrow>
     to_unsigned (pagsz S) \<noteq> 0 \<and> 0 < numframes S \<and> numframes S < 2 ^ 31
     \<and> int (length (frt S)) = numframes S \<and> int (length (pgt S)) = numpags S
     \<and> distinct (fl @ ol) \<and> set (fl @ ol) = {0..<length (frt S)}
     \<and> is_ring (frt S) (listfree S) fl
     \<and> (if uses_ring pol then is_ring (frt S) (listoccupied S) ol
        else listoccupied S = - 1)
     \<and> (\<forall>f \<in> set ol.
          0 \<le> page (frt S ! f) \<and> page (frt S ! f) < numpags S
          \<and> present (pgt S ! nat (page (frt S ! f)))
          \<and> frame (pgt S ! nat (page (frt S ! f))) = int f)
     \<and> (\<forall>p < length (pgt S).
          present (pgt S ! p) \<longrightarrow>
            0 \<le> frame (pgt S ! p) \<and> nat (frame (pgt S ! p)) \<in> set ol
            \<and> page (frt S ! nat (frame (pgt S ! p))) = int p)
     \<and> (pol = LRU \<longrightarrow> fl \<noteq> [] \<longrightarrow>
          (\<forall>p < length (pgt S). \<not> present (pgt S ! p) \<longrightarrow> \<not> modified (pgt S ! p)))"

definition well_formed :: "policy \<Rightarrow> ssystem \<Rightarrow> bool" where
  "well_formed pol S \<longleftrightarrow>
     state_inv pol S (map nat (free_ring S))
       (if uses_ring pol then map nat (occupied_ring S)
        else filter (\<lambda>f. f \<notin> set (map nat (free_ring S))) [0..<length (frt S)])"

text \<open>What \<^verbatim>\<open>init_tables\<close> needs of the system it is given.\<close>

definition usable :: "ssystem \<Rightarrow> bool" where
  "usable S \<longleftrightarrow>
     to_unsigned (pagsz S) \<noteq> 0 \<and> 0 < numframes S \<and> numframes S < 2 ^ 31
     \<and> int (length (frt S)) = numframes S \<and> int (length (pgt S)) = numpags S"

text \<open>
  The page held by a frame, and the referenced bit and the timestamp of that page.
\<close>

definition resident :: "ssystem \<Rightarrow> nat \<Rightarrow> nat" where
  "resident S f = nat (page (frt S ! f))"

definition frame_referenced :: "ssystem \<Rightarrow> nat \<Rightarrow> bool" where
  "frame_referenced S f = referenced (pgt S ! resident S f)"

definition frame_timestamp :: "ssystem \<Rightarrow> nat \<Rightarrow> 32 word" where
  "frame_timestamp S f = timestamp (pgt S ! resident S f)"

text \<open>
  The state of the two-frame, three-page system after a trace, as a concrete state for
  the examples.
\<close>

definition state_after :: "policy \<Rightarrow> (32 word \<times> 32 word \<times> char) list \<Rightarrow> ssystem" where
  "state_after pol tr = the (simulate pol (fresh_system 4096 3 2) tr)"

section \<open>Reading and writing the tables\<close>

lemma rd_Some: "rd xs i = Some x \<longleftrightarrow> 0 \<le> i \<and> i < int (length xs) \<and> x = xs ! nat i"
  by (auto simp: rd_def)

lemma wr_Some:
  "wr xs i f = Some ys \<longleftrightarrow> 0 \<le> i \<and> i < int (length xs) \<and> ys = xs[nat i := f (xs ! nat i)]"
  by (auto simp: wr_def)

lemma rd_int [simp]: "i < length xs \<Longrightarrow> rd xs (int i) = Some (xs ! i)"
  by (simp add: rd_def)

lemma wr_int [simp]: "i < length xs \<Longrightarrow> wr xs (int i) f = Some (xs[i := f (xs ! i)])"
  by (simp add: wr_def)

subsection \<open>Paths and rings\<close>

lemma path_append:
  "path fs x (as @ bs) z \<longleftrightarrow> (\<exists>y. path fs x as y \<and> path fs y bs z)"
  by (induction as arbitrary: x) auto

lemma path_update:
  "u \<notin> set as \<Longrightarrow> path (fs[u := e]) x as y = path fs x as y"
  by (induction as arbitrary: x) auto

lemma next_update_page:
  "next e = next (fs ! u) \<Longrightarrow> next (fs[u := e] ! a) = next (fs ! a)"
  by (cases "u < length fs") (auto simp: nth_list_update list_update_beyond not_less)

lemma path_update_page:
  "next e = next (fs ! u) \<Longrightarrow> path (fs[u := e]) x as y = path fs x as y"
proof (induction as arbitrary: x)
  case Nil
  then show ?case by simp
next
  case (Cons a as)
  with next_update_page [of e fs u a] show ?case by simp
qed

lemma is_ring_Nil [simp]: "is_ring fs anchor [] \<longleftrightarrow> anchor = - 1"
  by (simp add: is_ring_def)

lemma is_ring_snoc [simp]:
  "is_ring fs anchor (hs @ [a]) \<longleftrightarrow> anchor = int a \<and> path fs (next (fs ! a)) hs (int a)"
  by (auto simp: is_ring_def)

lemma is_ring_update_page:
  "next e = next (fs ! u) \<Longrightarrow> is_ring (fs[u := e]) anchor xs = is_ring fs anchor xs"
  by (simp add: is_ring_def path_update_page next_update_page)

lemma is_ring_update:
  "u \<notin> set xs \<Longrightarrow> is_ring (fs[u := e]) anchor xs = is_ring fs anchor xs"
proof (cases xs rule: rev_cases)
  case Nil
  then show ?thesis by simp
next
  case (snoc hs a)
  assume "u \<notin> set xs"
  with snoc show ?thesis by (simp add: path_update)
qed

lemma walk_path:
  "path fs x hs (int a) \<Longrightarrow> a \<notin> set hs \<Longrightarrow> \<forall>h \<in> set hs. h < length fs \<Longrightarrow> length hs < n
     \<Longrightarrow> walk fs (int a) x n = map int hs @ [int a]"
proof (induction hs arbitrary: x n)
  case Nil
  then show ?case by (cases n) auto
next
  case (Cons h hs)
  then obtain m where n: "n = Suc m" by (cases n) auto
  from Cons.prems have x: "x = int h" and p: "path fs (next (fs ! h)) hs (int a)"
    and h: "h \<noteq> a" "h < length fs" by auto
  from Cons.IH [OF p, of m] Cons.prems n
  have "walk fs (int a) (next (fs ! h)) m = map int hs @ [int a]" by simp
  with x h n show ?case by simp
qed

lemma distinct_length_le:
  assumes "distinct xs" and "set xs \<subseteq> {0..<n::nat}"
  shows "length xs \<le> n"
proof -
  have "card (set xs) \<le> card {0..<n}"
    using assms(2) by (intro card_mono) auto
  with assms(1) show ?thesis by (simp add: distinct_card)
qed

lemma ring_unique:
  assumes "is_ring fs anchor xs" and "distinct xs" and "set xs \<subseteq> {0..<length fs}"
  shows "ring fs anchor = map int xs"
proof (cases xs rule: rev_cases)
  case Nil
  with assms show ?thesis by (simp add: ring_def)
next
  case (snoc hs a)
  with assms have a: "anchor = int a" and p: "path fs (next (fs ! a)) hs (int a)"
    and d: "a \<notin> set hs" and r: "\<forall>h \<in> set hs. h < length fs" "a < length fs"
    by auto
  from assms snoc have "length (hs @ [a]) \<le> length fs"
    by (intro distinct_length_le) auto
  then have l: "length hs < length fs" by simp
  from walk_path [OF p d r(1) l] a r(2) snoc show ?thesis
    by (simp add: ring_def)
qed

section \<open>The invariant of the states\<close>

lemma state_invI:
  assumes "to_unsigned (pagsz S) \<noteq> 0" "0 < numframes S" "numframes S < 2 ^ 31"
    "int (length (frt S)) = numframes S" "int (length (pgt S)) = numpags S"
    "distinct (fl @ ol)" "set (fl @ ol) = {0..<length (frt S)}"
    "is_ring (frt S) (listfree S) fl"
    "uses_ring pol \<Longrightarrow> is_ring (frt S) (listoccupied S) ol"
    "\<not> uses_ring pol \<Longrightarrow> listoccupied S = - 1"
    "\<And>f. f \<in> set ol \<Longrightarrow>
          0 \<le> page (frt S ! f) \<and> page (frt S ! f) < numpags S
          \<and> present (pgt S ! nat (page (frt S ! f)))
          \<and> frame (pgt S ! nat (page (frt S ! f))) = int f"
    "\<And>p. p < length (pgt S) \<Longrightarrow> present (pgt S ! p) \<Longrightarrow>
            0 \<le> frame (pgt S ! p) \<and> nat (frame (pgt S ! p)) \<in> set ol
            \<and> page (frt S ! nat (frame (pgt S ! p))) = int p"
    "\<And>p. pol = LRU \<Longrightarrow> fl \<noteq> [] \<Longrightarrow> p < length (pgt S) \<Longrightarrow> \<not> present (pgt S ! p)
          \<Longrightarrow> \<not> modified (pgt S ! p)"
  shows "state_inv pol S fl ol"
  unfolding state_inv_def using assms by auto

lemma state_invD:
  assumes "state_inv pol S fl ol"
  shows "to_unsigned (pagsz S) \<noteq> 0" "0 < numframes S" "numframes S < 2 ^ 31"
    "int (length (frt S)) = numframes S" "int (length (pgt S)) = numpags S"
    "distinct (fl @ ol)" "set (fl @ ol) = {0..<length (frt S)}"
    "is_ring (frt S) (listfree S) fl"
    "uses_ring pol \<Longrightarrow> is_ring (frt S) (listoccupied S) ol"
    "\<not> uses_ring pol \<Longrightarrow> listoccupied S = - 1"
  using assms unfolding state_inv_def by (auto split: if_splits)

lemma state_inv_frame:
  assumes "state_inv pol S fl ol" and "f \<in> set ol"
  shows "0 \<le> page (frt S ! f)" "page (frt S ! f) < numpags S"
    "nat (page (frt S ! f)) < length (pgt S)"
    "present (pgt S ! nat (page (frt S ! f)))"
    "frame (pgt S ! nat (page (frt S ! f))) = int f"
  using assms unfolding state_inv_def by auto

lemma state_inv_page:
  assumes "state_inv pol S fl ol" and "p < length (pgt S)" and "present (pgt S ! p)"
  shows "0 \<le> frame (pgt S ! p)" "nat (frame (pgt S ! p)) \<in> set ol"
    "page (frt S ! nat (frame (pgt S ! p))) = int p"
  using assms unfolding state_inv_def by auto

lemma state_inv_unmodified:
  assumes "state_inv LRU S fl ol" and "fl \<noteq> []" and "p < length (pgt S)"
    and "\<not> present (pgt S ! p)"
  shows "\<not> modified (pgt S ! p)"
  using assms unfolding state_inv_def by auto

lemma state_inv_in_range:
  assumes "state_inv pol S fl ol"
  shows "f \<in> set fl \<Longrightarrow> f < length (frt S)" "f \<in> set ol \<Longrightarrow> f < length (frt S)"
  using state_invD(7) [OF assms] by auto

lemma state_inv_free_iff:
  assumes "state_inv pol S fl ol"
  shows "listfree S = - 1 \<longleftrightarrow> fl = []"
  using state_invD(8) [OF assms] by (cases fl rule: rev_cases) auto

text \<open>Taking the oldest free frame off the free list.\<close>

lemma take_free_frame_inv:
  assumes i: "state_inv pol S fl ol" and ne: "fl \<noteq> []"
  shows "\<exists>fs. take_free_frame S = Some (S\<lparr>frt := fs, listfree := (if tl fl = [] then - 1 else listfree S)\<rparr>, int (hd fl))
            \<and> length fs = length (frt S) \<and> map page fs = map page (frt S)
            \<and> is_ring fs (if tl fl = [] then - 1 else listfree S) (tl fl)
            \<and> (\<forall>anchor. is_ring fs anchor ol = is_ring (frt S) anchor ol)"
proof -
  from ne obtain hs a where fl: "fl = hs @ [a]" by (cases fl rule: rev_cases) auto
  from state_invD(8) [OF i] fl have lf: "listfree S = int a"
    and p: "path (frt S) (next (frt S ! a)) hs (int a)" by auto
  from state_inv_in_range(1) [OF i] fl have a: "a < length (frt S)" by simp
  from state_invD(6) [OF i] fl have d: "distinct hs" "a \<notin> set hs" "a \<notin> set ol" by auto
  show ?thesis
  proof (cases hs)
    case Nil
    with p have "next (frt S ! a) = int a" by simp
    with lf a Nil fl show ?thesis
      by (intro exI [of _ "frt S"]) (simp add: take_free_frame_def)
  next
    case (Cons f hs')
    with p have n: "next (frt S ! a) = int f" and p': "path (frt S) (next (frt S ! f)) hs' (int a)"
      by auto
    from Cons d have fa: "f \<noteq> a" "a \<notin> set hs'" by auto
    from state_inv_in_range(1) [OF i] fl Cons have f: "f < length (frt S)" by simp
    let ?fs = "(frt S)[a := (frt S ! a)\<lparr>next := next (frt S ! f)\<rparr>]"
    have t: "take_free_frame S = Some (S\<lparr>frt := ?fs\<rparr>, int f)"
      using lf a n fa f by (simp add: take_free_frame_def)
    have tl: "tl fl = hs' @ [a]" "hd fl = f" using fl Cons by simp_all
    have r: "is_ring ?fs (listfree S) (hs' @ [a])"
      using lf a p' fa by (simp add: path_update)
    have pg: "map page ?fs = map page (frt S)"
      using a by (simp add: map_update list_update_same_conv)
    have o: "\<forall>anchor. is_ring ?fs anchor ol = is_ring (frt S) anchor ol"
      using d by (simp add: is_ring_update)
    have "S\<lparr>frt := ?fs\<rparr> = S\<lparr>frt := ?fs, listfree := listfree S\<rparr>" by simp
    with t tl r pg o show ?thesis by (intro exI [of _ ?fs]) simp
  qed
qed

lemma map_eq_nth: "map g xs = ys \<Longrightarrow> i < length xs \<Longrightarrow> g (xs ! i) = ys ! i"
  by (auto simp: nth_map [symmetric] simp del: nth_map)

lemma map_update_nth:
  assumes "map g xs = (map g ys)[k := v]" and "length xs = length ys" and "i < length ys"
  shows "g (xs ! i) = (if i = k then v else g (ys ! i))"
proof -
  have "g (xs ! i) = (map g ys)[k := v] ! i"
    using map_eq_nth [OF assms(1), of i] assms(2,3) by simp
  with assms(3) show ?thesis by (simp add: nth_list_update)
qed

text \<open>The invariant after a free frame has been given to an absent page.\<close>

lemma state_inv_occupy:
  assumes i: "state_inv pol S fl ol" and ne: "fl \<noteq> []"
    and pg: "pg < length (pgt S)" and np: "\<not> present (pgt S ! pg)"
    and c: "pagsz S' = pagsz S" "numframes S' = numframes S" "numpags S' = numpags S"
      "length (frt S') = length (frt S)" "length (pgt S') = length (pgt S)"
    and fp: "map page (frt S') = (map page (frt S))[hd fl := int pg]"
    and pp: "map present (pgt S') = (map present (pgt S))[pg := True]"
    and pf: "map frame (pgt S') = (map frame (pgt S))[pg := int (hd fl)]"
    and rf: "is_ring (frt S') (listfree S') (tl fl)"
    and ro: "uses_ring pol \<Longrightarrow> is_ring (frt S') (listoccupied S') (ol @ [hd fl])"
    and no: "\<not> uses_ring pol \<Longrightarrow> listoccupied S' = - 1"
    and md: "pol = LRU \<Longrightarrow> map modified (pgt S') = map modified (pgt S)"
  shows "state_inv pol S' (tl fl) (ol @ [hd fl])"
proof -
  from ne obtain f fl' where fl: "fl = f # fl'" by (cases fl) auto
  have f: "f < length (frt S)" using state_inv_in_range(1) [OF i, of f] fl by simp
  have page': "\<And>x. x < length (frt S) \<Longrightarrow>
                 page (frt S' ! x) = (if x = f then int pg else page (frt S ! x))"
    using map_update_nth [OF fp c(4)] fl by simp
  have present': "\<And>p. p < length (pgt S) \<Longrightarrow>
                    present (pgt S' ! p) = (p = pg \<or> present (pgt S ! p))"
    using map_update_nth [OF pp c(5)] by simp
  have frame': "\<And>p. p < length (pgt S) \<Longrightarrow>
                  frame (pgt S' ! p) = (if p = pg then int f else frame (pgt S ! p))"
    using map_update_nth [OF pf c(5)] fl by simp
  show ?thesis
  proof (rule state_invI)
    show "to_unsigned (pagsz S') \<noteq> 0" "0 < numframes S'" "numframes S' < 2 ^ 31"
      "int (length (frt S')) = numframes S'" "int (length (pgt S')) = numpags S'"
      using state_invD(1-5) [OF i] c by simp_all
    show "distinct (tl fl @ ol @ [hd fl])" using state_invD(6) [OF i] fl by auto
    show "set (tl fl @ ol @ [hd fl]) = {0..<length (frt S')}"
      using state_invD(7) [OF i] fl c(4) by auto
    show "is_ring (frt S') (listfree S') (tl fl)" by (rule rf)
    show "uses_ring pol \<Longrightarrow> is_ring (frt S') (listoccupied S') (ol @ [hd fl])" by (rule ro)
    show "\<not> uses_ring pol \<Longrightarrow> listoccupied S' = - 1" by (rule no)
  next
    fix x assume x: "x \<in> set (ol @ [hd fl])"
    show "0 \<le> page (frt S' ! x) \<and> page (frt S' ! x) < numpags S'
          \<and> present (pgt S' ! nat (page (frt S' ! x)))
          \<and> frame (pgt S' ! nat (page (frt S' ! x))) = int x"
    proof (cases "x = f")
      case True
      with page' [OF f] present' [OF pg] frame' [OF pg] pg c state_invD(5) [OF i]
      show ?thesis by simp
    next
      case False
      with x fl have xo: "x \<in> set ol" by simp
      note q = state_inv_frame [OF i xo]
      from q(4) np have "nat (page (frt S ! x)) \<noteq> pg" by auto
      with q page' [OF state_inv_in_range(2) [OF i xo]] False
        present' [OF q(3)] frame' [OF q(3)] c
      show ?thesis by simp
    qed
  next
    fix p assume p: "p < length (pgt S')" "present (pgt S' ! p)"
    show "0 \<le> frame (pgt S' ! p) \<and> nat (frame (pgt S' ! p)) \<in> set (ol @ [hd fl])
          \<and> page (frt S' ! nat (frame (pgt S' ! p))) = int p"
    proof (cases "p = pg")
      case True
      with frame' [OF pg] page' [OF f] fl show ?thesis by simp
    next
      case False
      with p present' [of p] c have pp: "p < length (pgt S)" "present (pgt S ! p)" by simp_all
      note q = state_inv_page [OF i pp]
      from q(2) state_invD(6) [OF i] fl have "nat (frame (pgt S ! p)) \<noteq> f" by auto
      with q False frame' [OF pp(1)] page' [OF state_inv_in_range(2) [OF i q(2)]]
      show ?thesis by simp
    qed
  next
    fix p assume l: "pol = LRU" and t: "tl fl \<noteq> []" and p: "p < length (pgt S')"
      and a: "\<not> present (pgt S' ! p)"
    from p c have p': "p < length (pgt S)" by simp
    with a present' [OF p'] have "\<not> present (pgt S ! p)" by simp
    from state_inv_unmodified [OF i [unfolded l] ne p' this]
      map_eq_nth [OF md [OF l], of p] p p'
    show "\<not> modified (pgt S' ! p)" by simp
  qed
qed

lemma map_update_same:
  "g e = g (xs ! i) \<Longrightarrow> map g (xs[i := e]) = map g xs"
  by (cases "i < length xs") (simp_all add: map_update list_update_same_conv not_less list_update_beyond)

lemma link_occupied_ring:
  assumes r: "is_ring (frt S) (listoccupied S) ol"
    and f: "f < length (frt S)" "f \<notin> set ol"
    and d: "distinct ol" and b: "\<forall>x \<in> set ol. x < length (frt S)"
  shows "\<exists>fs. link_occupied S (int f) = Some (S\<lparr>frt := fs, listoccupied := int f\<rparr>)
            \<and> length fs = length (frt S) \<and> map page fs = map page (frt S)
            \<and> is_ring fs (int f) (ol @ [f])
            \<and> (\<forall>anchor xs. f \<notin> set xs \<longrightarrow> set xs \<inter> set ol = {} \<longrightarrow>
                  is_ring fs anchor xs = is_ring (frt S) anchor xs)"
proof (cases ol rule: rev_cases)
  case Nil
  let ?fs = "(frt S)[f := (frt S ! f)\<lparr>next := int f\<rparr>]"
  from Nil r have "listoccupied S = - 1" by simp
  then have "link_occupied S (int f) = Some (S\<lparr>frt := ?fs, listoccupied := int f\<rparr>)"
    using f by (simp add: link_occupied_def)
  moreover have "map page ?fs = map page (frt S)"
    by (simp add: map_update_same)
  moreover have "is_ring ?fs (int f) ([] @ [f])"
    using f unfolding is_ring_snoc by simp
  moreover have "\<forall>anchor xs. f \<notin> set xs \<longrightarrow> is_ring ?fs anchor xs = is_ring (frt S) anchor xs"
    by (simp add: is_ring_update)
  ultimately show ?thesis using Nil by (intro exI [of _ ?fs]) simp
next
  case (snoc os b)
  from snoc r have lo: "listoccupied S = int b"
    and p: "path (frt S) (next (frt S ! b)) os (int b)" by auto
  from snoc d f b have bb: "b < length (frt S)" "b \<notin> set os" "f \<noteq> b" "f \<notin> set os" by auto
  let ?f1 = "(frt S)[f := (frt S ! f)\<lparr>next := next (frt S ! b)\<rparr>]"
  let ?fs = "?f1[b := (?f1 ! b)\<lparr>next := int f\<rparr>]"
  have "link_occupied S (int f) = Some (S\<lparr>frt := ?fs, listoccupied := int f\<rparr>)"
    using lo f bb by (simp add: link_occupied_def)
  moreover have "map page ?fs = map page (frt S)"
    using bb by (simp add: map_update_same)
  moreover have "is_ring ?fs (int f) ((os @ [b]) @ [f])"
    unfolding is_ring_snoc path_append
  proof (intro conjI exI [of _ "int b"])
    show "int f = int f" ..
    have "next (?fs ! f) = next (frt S ! b)" using f bb by simp
    then show "path ?fs (next (?fs ! f)) os (int b)"
      using p bb by (simp add: path_update)
    show "path ?fs (int b) [b] (int f)" using bb f by simp
  qed
  moreover have "\<forall>anchor xs. f \<notin> set xs \<longrightarrow> set xs \<inter> set ol = {} \<longrightarrow>
                   is_ring ?fs anchor xs = is_ring (frt S) anchor xs"
    using snoc by (auto simp: is_ring_update)
  ultimately show ?thesis using snoc by (intro exI [of _ ?fs]) simp
qed

lemma state_inv_numpagefaults [simp]:
  "state_inv pol (S\<lparr>numpagefaults := n\<rparr>) fl ol = state_inv pol S fl ol"
  by (simp add: state_inv_def)

lemma page_number_numpagefaults [simp]:
  "page_number (S\<lparr>numpagefaults := n\<rparr>) va = page_number S va"
  by (simp add: page_number_def)

lemma map_list_update_id: "(map g xs)[i := g (xs ! i)] = map g xs"
  by (cases "i < length xs") (simp_all add: list_update_same_conv not_less list_update_beyond)

lemma occupy_free_frame_inv:
  assumes i: "state_inv pol S fl ol" and fl: "fl = f # fl'"
    and pg: "pg < length (pgt S)" and np: "\<not> present (pgt S ! pg)"
    and l: "length fs = length (frt S)" and mp: "map page fs = map page (frt S)"
    and rf: "is_ring fs lf fl'"
    and ro: "\<forall>anchor. is_ring fs anchor ol = is_ring (frt S) anchor ol"
  shows "\<exists>S'. occupy_free_frame pol (S\<lparr>frt := fs, listfree := lf\<rparr>) (int f) (int pg) = Some S'
            \<and> state_inv pol S' fl' (ol @ [f]) \<and> present (pgt S' ! pg)
            \<and> (pol \<noteq> LRU \<longrightarrow> \<not> modified (pgt S' ! pg))
            \<and> numpgwriteback S' = numpgwriteback S"
proof -
  let ?S1 = "S\<lparr>frt := fs, listfree := lf\<rparr>"
  from fl have ne: "fl \<noteq> []" and hd: "hd fl = f" and tl: "tl fl = fl'" by simp_all
  have f: "f < length fs" using state_inv_in_range(1) [OF i, of f] fl l by simp
  have fo: "f \<notin> set ol" "f \<notin> set fl'" "set fl' \<inter> set ol = {}" "distinct ol"
    using state_invD(6) [OF i] fl by auto
  note occ = state_inv_occupy [OF i ne pg np, unfolded hd tl]
  have bo: "\<forall>x \<in> set ol. x < length fs" using state_inv_in_range(2) [OF i] l by simp
  have mpu: "\<And>fs'. map page fs' = map page (frt S) \<Longrightarrow>
               map page (fs'[f := (fs' ! f)\<lparr>page := int pg\<rparr>]) = (map page (frt S))[f := int pg]"
    by (simp add: map_update)
  show ?thesis
  proof (cases "uses_ring pol")
    case True
    with state_invD(9) [OF i] ro have "is_ring (frt ?S1) (listoccupied ?S1) ol" by simp
    from link_occupied_ring [OF this, of f] f fo bo
    obtain fs2 where lk: "link_occupied ?S1 (int f) = Some (?S1\<lparr>frt := fs2, listoccupied := int f\<rparr>)"
      and l2: "length fs2 = length fs" and mp2: "map page fs2 = map page fs"
      and r2: "is_ring fs2 (int f) (ol @ [f])"
      and k2: "\<forall>anchor xs. f \<notin> set xs \<longrightarrow> set xs \<inter> set ol = {} \<longrightarrow>
                  is_ring fs2 anchor xs = is_ring fs anchor xs"
      by auto
    let ?fs3 = "fs2[f := (fs2 ! f)\<lparr>page := int pg\<rparr>]"
    have rf3: "is_ring ?fs3 lf fl'"
      using rf k2 fo by (simp add: is_ring_update_page)
    have ro3: "is_ring ?fs3 (int f) (ol @ [f])"
      using r2 by (subst is_ring_update_page) simp_all
    from True consider "pol = FIFO" | "pol = SecondChance" by (auto simp: uses_ring_def)
    then show ?thesis
    proof cases
      case 1
      let ?S' = "?S1\<lparr>frt := ?fs3, listoccupied := int f,
                     pgt := (pgt S)[pg := (pgt S ! pg)\<lparr>present := True, frame := int f, modified := False\<rparr>]\<rparr>"
      have "occupy_free_frame pol ?S1 (int f) (int pg) = Some ?S'"
        using 1 lk pg f l2 by simp
      moreover have "state_inv pol ?S' fl' (ol @ [f])"
        using rf3 ro3 True mpu [of fs2] mp mp2 l l2 1
        by (intro occ) (simp_all add: map_update)
      ultimately show ?thesis using pg by (intro exI [of _ ?S']) simp
    next
      case 2
      let ?S' = "?S1\<lparr>frt := ?fs3, listoccupied := int f,
                     pgt := (pgt S)[pg := (pgt S ! pg)\<lparr>present := True, frame := int f,
                                       modified := False, referenced := True\<rparr>]\<rparr>"
      have "occupy_free_frame pol ?S1 (int f) (int pg) = Some ?S'"
        using 2 lk pg f l2 by simp
      moreover have "state_inv pol ?S' fl' (ol @ [f])"
        using rf3 ro3 True mpu [of fs2] mp mp2 l l2 2
        by (intro occ) (simp_all add: map_update)
      ultimately show ?thesis using pg by (intro exI [of _ ?S']) simp
    qed
  next
    case False
    let ?fs3 = "fs[f := (fs ! f)\<lparr>page := int pg\<rparr>]"
    have rf3: "is_ring ?fs3 lf fl'"
      using rf by (simp add: is_ring_update_page)
    from False consider "pol = Random" | "pol = LRU" by (cases pol) (auto simp: uses_ring_def)
    then show ?thesis
    proof cases
      case 1
      let ?S' = "?S1\<lparr>frt := ?fs3,
                     pgt := (pgt S)[pg := (pgt S ! pg)\<lparr>present := True, frame := int f, modified := False\<rparr>]\<rparr>"
      have "occupy_free_frame pol ?S1 (int f) (int pg) = Some ?S'"
        using 1 pg f by simp
      moreover have "state_inv pol ?S' fl' (ol @ [f])"
        using rf3 False mpu [of fs] mp l 1 state_invD(10) [OF i]
        by (intro occ) (simp_all add: map_update)
      ultimately show ?thesis using pg by (intro exI [of _ ?S']) simp
    next
      case 2
      let ?S' = "?S1\<lparr>frt := ?fs3,
                     pgt := (pgt S)[pg := (pgt S ! pg)\<lparr>frame := int f, present := True,
                                       referenced := True\<rparr>]\<rparr>"
      have "occupy_free_frame pol ?S1 (int f) (int pg) = Some ?S'"
        using 2 pg f by simp
      moreover have "state_inv pol ?S' fl' (ol @ [f])"
        using rf3 False mpu [of fs] mp l 2 state_invD(10) [OF i]
        by (intro occ) (simp_all add: map_update map_list_update_id)
      ultimately show ?thesis using pg 2 by (intro exI [of _ ?S']) simp
    qed
  qed
qed

lemma is_ring_rotate1:
  assumes "is_ring fs anchor (x # xs)"
  shows "anchor = int (last (x # xs))" "next (fs ! last (x # xs)) = int x"
    "is_ring fs (int x) (xs @ [x])"
proof -
  show "anchor = int (last (x # xs))" using assms by (simp add: is_ring_def)
  show "next (fs ! last (x # xs)) = int x" "is_ring fs (int x) (xs @ [x])"
  proof (atomize (full), cases xs rule: rev_cases)
    case Nil
    with assms show "next (fs ! last (x # xs)) = int x \<and> is_ring fs (int x) (xs @ [x])"
      by (simp add: is_ring_def)
  next
    case (snoc ys a)
    with assms have "is_ring fs anchor ((x # ys) @ [a])" by simp
    then have "next (fs ! a) = int x" "path fs (next (fs ! x)) ys (int a)"
      unfolding is_ring_snoc by simp_all
    then have "next (fs ! a) = int x" "is_ring fs (int x) ((ys @ [a]) @ [x])"
      unfolding is_ring_snoc path_append by auto
    then show "next (fs ! last (x # xs)) = int x \<and> is_ring fs (int x) (xs @ [x])"
      using snoc by simp
  qed
qed

text \<open>The invariant after the page of an occupied frame has been replaced.\<close>

lemma state_inv_replace:
  assumes i: "state_inv pol S [] ol" and f: "f \<in> set ol"
    and pg: "pg < length (pgt S)" and np: "\<not> present (pgt S ! pg)"
    and c: "pagsz S' = pagsz S" "numframes S' = numframes S" "numpags S' = numpags S"
      "listfree S' = listfree S" "listoccupied S' = listoccupied S"
      "length (pgt S') = length (pgt S)"
    and fr: "frt S' = (frt S)[f := (frt S ! f)\<lparr>page := int pg\<rparr>]"
    and pp: "map present (pgt S') = (map present (pgt S))[nat (page (frt S ! f)) := False, pg := True]"
    and pf: "map frame (pgt S') = (map frame (pgt S))[pg := int f]"
  shows "state_inv pol S' [] ol"
proof -
  let ?v = "nat (page (frt S ! f))"
  note v = state_inv_frame [OF i f]
  have fl: "f < length (frt S)" by (rule state_inv_in_range(2) [OF i f])
  have page': "\<And>x. x < length (frt S) \<Longrightarrow>
                 page (frt S' ! x) = (if x = f then int pg else page (frt S ! x))"
    using fr by (simp add: nth_list_update)
  have present': "\<And>p. p < length (pgt S) \<Longrightarrow>
                    present (pgt S' ! p) = (p = pg \<or> (p \<noteq> ?v \<and> present (pgt S ! p)))"
  proof -
    fix p assume p: "p < length (pgt S)"
    have "present (pgt S' ! p) = (map present (pgt S))[?v := False, pg := True] ! p"
      using map_eq_nth [OF pp, of p] p c(6) by simp
    then show "present (pgt S' ! p) = (p = pg \<or> (p \<noteq> ?v \<and> present (pgt S ! p)))"
      using p by (cases "p = pg"; cases "p = ?v") simp_all
  qed
  have frame': "\<And>p. p < length (pgt S) \<Longrightarrow>
                  frame (pgt S' ! p) = (if p = pg then int f else frame (pgt S ! p))"
    using map_update_nth [OF pf c(6)] by simp
  show ?thesis
  proof (rule state_invI)
    show "to_unsigned (pagsz S') \<noteq> 0" "0 < numframes S'" "numframes S' < 2 ^ 31"
      "int (length (frt S')) = numframes S'" "int (length (pgt S')) = numpags S'"
      "distinct ([] @ ol)" "set ([] @ ol) = {0..<length (frt S')}"
      using state_invD(1-7) [OF i] c fr by simp_all
    show "is_ring (frt S') (listfree S') []" using state_invD(8) [OF i] c by simp
    show "uses_ring pol \<Longrightarrow> is_ring (frt S') (listoccupied S') ol"
      using state_invD(9) [OF i] c fr by (simp add: is_ring_update_page)
    show "\<not> uses_ring pol \<Longrightarrow> listoccupied S' = - 1"
      using state_invD(10) [OF i] c by simp
  next
    fix x assume x: "x \<in> set ol"
    note q = state_inv_frame [OF i x]
    show "0 \<le> page (frt S' ! x) \<and> page (frt S' ! x) < numpags S'
          \<and> present (pgt S' ! nat (page (frt S' ! x)))
          \<and> frame (pgt S' ! nat (page (frt S' ! x))) = int x"
    proof (cases "x = f")
      case True
      with page' [OF fl] present' [OF pg] frame' [OF pg] pg c state_invD(5) [OF i]
      show ?thesis by simp
    next
      case False
      from q(4) np have n1: "nat (page (frt S ! x)) \<noteq> pg" by auto
      from q(5) v(5) False have n2: "nat (page (frt S ! x)) \<noteq> ?v" by auto
      from q n1 n2 page' [OF state_inv_in_range(2) [OF i x]] False
        present' [OF q(3)] frame' [OF q(3)] c
      show ?thesis by simp
    qed
  next
    fix p assume p: "p < length (pgt S')" "present (pgt S' ! p)"
    show "0 \<le> frame (pgt S' ! p) \<and> nat (frame (pgt S' ! p)) \<in> set ol
          \<and> page (frt S' ! nat (frame (pgt S' ! p))) = int p"
    proof (cases "p = pg")
      case True
      with frame' [OF pg] page' [OF fl] f show ?thesis by simp
    next
      case False
      with p present' [of p] c have pp: "p < length (pgt S)" "present (pgt S ! p)" "p \<noteq> ?v"
        by simp_all
      note q = state_inv_page [OF i pp(1,2)]
      from q(3) pp(3) v(1) have "nat (frame (pgt S ! p)) \<noteq> f" by auto
      with q False frame' [OF pp(1)] page' [OF state_inv_in_range(2) [OF i q(2)]]
      show ?thesis by simp
    qed
  qed simp
qed

lemma replace_page_inv:
  assumes i: "state_inv pol S [] ol" and f: "f \<in> set ol"
    and pg: "pg < length (pgt S)" and np: "\<not> present (pgt S ! pg)"
  shows "\<exists>S'. replace_page S (page (frt S ! f)) (int pg) = Some S'
            \<and> state_inv pol S' [] ol \<and> present (pgt S' ! pg) \<and> \<not> modified (pgt S' ! pg)
            \<and> numpgwriteback S' = numpgwriteback S
                 + (if modified (pgt S ! nat (page (frt S ! f))) then 1 else 0)"
proof -
  let ?v = "nat (page (frt S ! f))"
  note v = state_inv_frame [OF i f]
  have fl: "f < length (frt S)" by (rule state_inv_in_range(2) [OF i f])
  from v(4) np have ne: "?v \<noteq> pg" by auto
  let ?t = "(pgt S)[?v := (pgt S ! ?v)\<lparr>present := False\<rparr>]"
  let ?S1 = "(if modified (pgt S ! ?v) then S\<lparr>numpgwriteback := numpgwriteback S + 1\<rparr> else S)"
  let ?S' = "?S1\<lparr>pgt := ?t[pg := (?t ! pg)\<lparr>present := True, frame := int f, modified := False\<rparr>],
                 frt := (frt S)[f := (frt S ! f)\<lparr>page := int pg\<rparr>]\<rparr>"
  have r: "replace_page S (page (frt S ! f)) (int pg) = Some ?S'"
    using v pg fl ne by (simp add: replace_page_def rd_def wr_def Let_def)
  have "state_inv pol ?S' [] ol"
    by (rule state_inv_replace [OF i f pg np]) (simp_all add: map_update map_list_update_id)
  with r pg show ?thesis by (intro exI [of _ ?S']) simp
qed

lemma state_inv_same_tables:
  assumes i: "state_inv pol S fl ol"
    and c: "pagsz S' = pagsz S" "numframes S' = numframes S" "numpags S' = numpags S"
      "listfree S' = listfree S" "frt S' = frt S"
    and pp: "map present (pgt S') = map present (pgt S)"
    and pf: "map frame (pgt S') = map frame (pgt S)"
    and md: "\<And>p. pol = LRU \<Longrightarrow> p < length (pgt S) \<Longrightarrow> modified (pgt S' ! p)
               \<Longrightarrow> modified (pgt S ! p) \<or> present (pgt S ! p)"
    and o: "distinct ol'" "set ol' = set ol"
    and ro: "uses_ring pol \<Longrightarrow> is_ring (frt S') (listoccupied S') ol'"
    and no: "\<not> uses_ring pol \<Longrightarrow> listoccupied S' = - 1"
  shows "state_inv pol S' fl ol'"
proof -
  have l: "length (pgt S') = length (pgt S)" using pp by (rule map_eq_imp_length_eq)
  have present': "\<And>p. p < length (pgt S) \<Longrightarrow> present (pgt S' ! p) = present (pgt S ! p)"
    using map_eq_nth [OF pp] l by simp
  have frame': "\<And>p. p < length (pgt S) \<Longrightarrow> frame (pgt S' ! p) = frame (pgt S ! p)"
    using map_eq_nth [OF pf] l by simp
  show ?thesis
  proof (rule state_invI)
    show "to_unsigned (pagsz S') \<noteq> 0" "0 < numframes S'" "numframes S' < 2 ^ 31"
      "int (length (frt S')) = numframes S'" "int (length (pgt S')) = numpags S'"
      "distinct (fl @ ol')" "set (fl @ ol') = {0..<length (frt S')}"
      using state_invD(1-7) [OF i] c l o by auto
    show "is_ring (frt S') (listfree S') fl" using state_invD(8) [OF i] c by simp
    show "uses_ring pol \<Longrightarrow> is_ring (frt S') (listoccupied S') ol'" by (rule ro)
    show "\<not> uses_ring pol \<Longrightarrow> listoccupied S' = - 1" by (rule no)
  next
    fix x assume "x \<in> set ol'"
    with o have x: "x \<in> set ol" by simp
    from state_inv_frame [OF i x] present' frame' c
    show "0 \<le> page (frt S' ! x) \<and> page (frt S' ! x) < numpags S'
          \<and> present (pgt S' ! nat (page (frt S' ! x)))
          \<and> frame (pgt S' ! nat (page (frt S' ! x))) = int x"
      by simp
  next
    fix p assume "p < length (pgt S')" "present (pgt S' ! p)"
    with l present' have p: "p < length (pgt S)" "present (pgt S ! p)" by simp_all
    from state_inv_page [OF i p] frame' [OF p(1)] c o
    show "0 \<le> frame (pgt S' ! p) \<and> nat (frame (pgt S' ! p)) \<in> set ol'
          \<and> page (frt S' ! nat (frame (pgt S' ! p))) = int p"
      by simp
  next
    fix p assume a: "pol = LRU" "fl \<noteq> []" "p < length (pgt S')" "\<not> present (pgt S' ! p)"
    with l present' have p: "p < length (pgt S)" "\<not> present (pgt S ! p)" by simp_all
    from state_inv_unmodified [OF i [unfolded a(1)] a(2) p] md [OF a(1) p(1)] p(2)
    show "\<not> modified (pgt S' ! p)" by auto
  qed
qed

lemma state_inv_occupied_nonempty:
  assumes "state_inv pol S [] ol"
  shows "ol \<noteq> []"
proof
  assume "ol = []"
  with state_invD(7) [OF assms] state_invD(2,4) [OF assms] show False by auto
qed

lemma choose_FIFO_inv:
  assumes i: "state_inv FIFO S [] ol"
  shows "choose_page_to_be_replaced FIFO draw S
           = Some (S\<lparr>listoccupied := int (hd ol)\<rparr>, page (frt S ! hd ol))
         \<and> state_inv FIFO (S\<lparr>listoccupied := int (hd ol)\<rparr>) [] (rotate1 ol)"
proof -
  from state_inv_occupied_nonempty [OF i] obtain x xs where ol: "ol = x # xs"
    by (cases ol) auto
  have u: "uses_ring FIFO" by (simp add: uses_ring_def)
  note r = is_ring_rotate1 [OF state_invD(9) [OF i u, unfolded ol]]
  have b: "last (x # xs) < length (frt S)" "x < length (frt S)"
    using state_inv_in_range(2) [OF i] ol by (metis last_in_set list.distinct(1), simp)
  have "choose_page_to_be_replaced FIFO draw S
          = Some (S\<lparr>listoccupied := int x\<rparr>, page (frt S ! x))"
    using r(1,2) b by simp
  moreover have "state_inv FIFO (S\<lparr>listoccupied := int x\<rparr>) [] (xs @ [x])"
    using r(3) state_invD(6) [OF i] ol u
    by (intro state_inv_same_tables [OF i]) auto
  ultimately show ?thesis using ol by simp
qed

section \<open>The victim of each variant\<close>

lemma to_int_small:
  assumes "uint w < 2 ^ 31"
  shows "to_int (w :: 32 word) = uint w"
proof -
  have "- (2 ^ 31) \<le> (0::int)" by simp
  also have "0 \<le> uint w" by simp
  finally have "signed_take_bit 31 (uint w) = uint w"
    using assms by (intro signed_take_bit_int_eq_self)
  then show ?thesis by (simp add: to_int_def sint_uint)
qed

lemma uint_to_unsigned:
  assumes "0 \<le> k" and "k < 2 ^ 32"
  shows "uint (to_unsigned k) = k"
  using assms by (simp add: to_unsigned_def uint_word_of_int)

lemma myrandom_range:
  assumes "0 < nf" and "nf < 2 ^ 31"
  shows "0 \<le> to_int (myrandom draw 0 (to_unsigned nf))"
    and "to_int (myrandom draw 0 (to_unsigned nf)) < nf"
proof -
  let ?n = "to_unsigned nf"
  have n: "uint ?n = nf" using assms by (intro uint_to_unsigned) simp_all
  then have "uint (1 :: 32 word) \<le> uint ?n" using assms by simp
  then have m: "uint (?n - 1) = nf - 1"
    using n by (simp add: uint_sub_lem [THEN iffD1])
  have "myrandom draw 0 ?n \<le> ?n - 1"
    by (simp add: myrandom_def Let_def not_less)
  then have "uint (myrandom draw 0 ?n) \<le> nf - 1"
    using m by (simp add: word_le_def)
  with assms have u: "uint (myrandom draw 0 ?n) < 2 ^ 31" "uint (myrandom draw 0 ?n) < nf"
    by simp_all
  from to_int_small [OF u(1)] u(2)
  show "0 \<le> to_int (myrandom draw 0 ?n)" "to_int (myrandom draw 0 ?n) < nf"
    by simp_all
qed

lemma choose_Random_inv:
  assumes i: "state_inv Random S [] ol"
  shows "\<exists>f \<in> set ol. choose_page_to_be_replaced Random draw S = Some (S, page (frt S ! f))"
proof -
  let ?r = "to_int (myrandom draw 0 (to_unsigned (numframes S)))"
  note r = myrandom_range [OF state_invD(2,3) [OF i], of draw]
  with state_invD(4) [OF i] have "nat ?r < length (frt S)" by simp
  with state_invD(7) [OF i] have "nat ?r \<in> set ol" by simp
  moreover have "choose_page_to_be_replaced Random draw S = Some (S, page (frt S ! nat ?r))"
    using r state_invD(4) [OF i] by (simp add: rd_def)
  ultimately show ?thesis by blast
qed

lemma lru_scan_min:
  assumes n: "numframes S = int n" "length (frt S) = n"
    and rng: "\<forall>x<n. 0 \<le> page (frt S ! x) \<and> nat (page (frt S ! x)) < length (pgt S)"
    and i: "i \<le> n" and pos: "0 < n"
    and fr: "(i = 0 \<and> fr = - 1)
             \<or> (\<exists>m<i. fr = int m \<and> (\<forall>x<i. frame_timestamp S m \<le> frame_timestamp S x)
                          \<and> (\<forall>x<m. frame_timestamp S m < frame_timestamp S x))"
  shows "\<exists>m<n. lru_scan S (int i) fr = Some (int m)
               \<and> (\<forall>x<n. frame_timestamp S m \<le> frame_timestamp S x)
               \<and> (\<forall>x<m. frame_timestamp S m < frame_timestamp S x)"
  using i fr
proof (induction "n - i" arbitrary: i fr)
  case 0
  then have "i = n" by simp
  with 0 pos n show ?case by (subst lru_scan.simps) auto
next
  case (Suc d)
  then have i: "i < n" by simp
  let ?fr1 = "if fr = - 1 then int i else fr"
  from Suc.prems(2) obtain m where m: "?fr1 = int m" "m \<le> i"
    "\<forall>x<i. frame_timestamp S m \<le> frame_timestamp S x"
    "\<forall>x<m. frame_timestamp S m < frame_timestamp S x"
  proof
    assume "i = 0 \<and> fr = - 1"
    then show ?thesis by (intro that [of i]) simp_all
  next
    assume "\<exists>m<i. fr = int m \<and> (\<forall>x<i. frame_timestamp S m \<le> frame_timestamp S x)
                          \<and> (\<forall>x<m. frame_timestamp S m < frame_timestamp S x)"
    then obtain m where "m < i" "fr = int m" "\<forall>x<i. frame_timestamp S m \<le> frame_timestamp S x"
      "\<forall>x<m. frame_timestamp S m < frame_timestamp S x" by blast
    then show ?thesis by (intro that [of m]) simp_all
  qed
  from m i have mn: "m < n" by simp
  let ?c = "frame_timestamp S i < frame_timestamp S m"
  let ?fr2 = "if ?c then int i else int m"
  have pi: "0 \<le> page (frt S ! i)" "page (frt S ! i) < int (length (pgt S))"
    and pm: "0 \<le> page (frt S ! m)" "page (frt S ! m) < int (length (pgt S))"
    using rng i mn by auto
  have step: "lru_scan S (int i) fr = lru_scan S (int (Suc i)) ?fr2"
    using i mn m(1) n pi pm
    by (subst lru_scan.simps)
       (simp add: rd_def frame_timestamp_def resident_def Let_def add.commute)
  have "\<exists>k<Suc i. ?fr2 = int k \<and> (\<forall>x<Suc i. frame_timestamp S k \<le> frame_timestamp S x)
                          \<and> (\<forall>x<k. frame_timestamp S k < frame_timestamp S x)"
  proof (cases ?c)
    case True
    have "\<forall>x<Suc i. frame_timestamp S i \<le> frame_timestamp S x"
      using True m(3) by (auto simp: less_Suc_eq intro: less_imp_le order.strict_trans2)
    moreover have "\<forall>x<i. frame_timestamp S i < frame_timestamp S x"
      using True m(3) by (auto intro: order.strict_trans2)
    ultimately show ?thesis using True by (intro exI [of _ i]) simp
  next
    case False
    then have "\<forall>x<Suc i. frame_timestamp S m \<le> frame_timestamp S x"
      using m(3) by (auto simp: less_Suc_eq not_less)
    with False m show ?thesis by (intro exI [of _ m]) simp
  qed
  then have "(Suc i = 0 \<and> ?fr2 = - 1)
             \<or> (\<exists>k<Suc i. ?fr2 = int k \<and> (\<forall>x<Suc i. frame_timestamp S k \<le> frame_timestamp S x)
                          \<and> (\<forall>x<k. frame_timestamp S k < frame_timestamp S x))"
    by blast
  from Suc.hyps(1) [of "Suc i", OF _ _ this] Suc.hyps(2) i step
  show ?case by simp
qed

lemma choose_LRU_inv:
  assumes i: "state_inv LRU S [] ol"
  shows "\<exists>m \<in> set ol. choose_page_to_be_replaced LRU draw S = Some (S, page (frt S ! m))
           \<and> (\<forall>x<length (frt S). frame_timestamp S m \<le> frame_timestamp S x)
           \<and> (\<forall>x<m. frame_timestamp S m < frame_timestamp S x)"
proof -
  let ?n = "length (frt S)"
  have all: "set ol = {0..<?n}" using state_invD(7) [OF i] by simp
  have rng: "\<forall>x<?n. 0 \<le> page (frt S ! x) \<and> nat (page (frt S ! x)) < length (pgt S)"
    using state_inv_frame(1,3) [OF i] all by simp
  have pos: "0 < ?n" using state_invD(2,4) [OF i] by auto
  from lru_scan_min [of S ?n 0 "- 1", OF _ _ rng _ pos] state_invD(4) [OF i]
  obtain m where m: "m < ?n" "lru_scan S 0 (- 1) = Some (int m)"
    "\<forall>x<?n. frame_timestamp S m \<le> frame_timestamp S x"
    "\<forall>x<m. frame_timestamp S m < frame_timestamp S x"
    by auto
  then have "choose_page_to_be_replaced LRU draw S = Some (S, page (frt S ! m))"
    by simp
  with m all show ?thesis by (intro bexI [of _ m]) simp_all
qed

lemma state_inv_resident_inj:
  assumes i: "state_inv pol S fl ol" and x: "x \<in> set ol" and y: "y \<in> set ol"
    and r: "resident S x = resident S y"
  shows "x = y"
proof -
  have "int x = frame (pgt S ! resident S x)"
    using state_inv_frame(5) [OF i x] by (simp add: resident_def)
  also have "\<dots> = frame (pgt S ! resident S y)" by (simp only: r)
  also have "\<dots> = int y"
    using state_inv_frame(5) [OF i y] by (simp add: resident_def)
  finally show ?thesis by simp
qed

lemma takeWhile_snoc_False: "\<not> P x \<Longrightarrow> takeWhile P (xs @ [x]) = takeWhile P xs"
  by (induction xs) auto

lemma second_chance_walk_inv:
  assumes "state_inv SecondChance S [] ol"
  shows "\<exists>t a. second_chance_walk S
                = Some (S\<lparr>pgt := t, listoccupied := a\<rparr>,
                        page (frt S ! (ol ! (length (takeWhile (frame_referenced S) ol)
                                                  mod length ol))))
            \<and> state_inv SecondChance (S\<lparr>pgt := t, listoccupied := a\<rparr>) []
                  (rotate (length (takeWhile (frame_referenced S) ol)) ol)
            \<and> length t = length (pgt S)
            \<and> (\<forall>q<length (pgt S).
                  t ! q
                    = (if q \<in> resident S ` set (take (length (takeWhile (frame_referenced S) ol)) ol)
                       then (pgt S ! q)\<lparr>referenced := False\<rparr> else pgt S ! q))"
  using assms
proof (induction S arbitrary: ol rule: second_chance_walk.induct)
  case (1 S)
  note i = "1.prems"
  from state_inv_occupied_nonempty [OF i] obtain x xs where ol: "ol = x # xs"
    by (cases ol) auto
  have u: "uses_ring SecondChance" by (simp add: uses_ring_def)
  note r = is_ring_rotate1 [OF state_invD(9) [OF i u, unfolded ol]]
  have xo: "x \<in> set ol" using ol by simp
  have b: "last (x # xs) < length (frt S)" "x < length (frt S)"
    using state_inv_in_range(2) [OF i] ol by (metis last_in_set list.distinct(1), simp)
  note px = state_inv_frame [OF i xo]
  let ?l = "frt S ! last (x # xs)"
  let ?e = "frt S ! x"
  let ?d = "pgt S ! resident S x"
  have l: "rd (frt S) (listoccupied S) = Some ?l" using r(1) b by simp
  have e: "rd (frt S) (next ?l) = Some ?e" using r(2) b by simp
  have d: "rd (pgt S) (page ?e) = Some ?d"
    using px by (simp add: rd_def resident_def)
  show ?case
  proof (cases "referenced ?d")
    case False
    then have k: "takeWhile (frame_referenced S) ol = []"
      using ol by (simp add: frame_referenced_def)
    have "second_chance_walk S = Some (S, page ?e)"
      using l e d False by (subst second_chance_walk.simps) simp
    with k i ol show ?thesis
      by (intro exI [of _ "pgt S"] exI [of _ "listoccupied S"]) simp
  next
    case True
    let ?T = "S\<lparr>pgt := (pgt S)[nat (page ?e) := ?d\<lparr>referenced := False\<rparr>],
                 listoccupied := next ?l\<rparr>"
    have w: "second_chance_walk S = second_chance_walk ?T"
      using l e d True by (subst second_chance_walk.simps) simp
    have iT: "state_inv SecondChance ?T [] (xs @ [x])"
      using r(2,3) state_invD(6) [OF i] ol u
      by (intro state_inv_same_tables [OF i])
         (auto simp: map_update map_list_update_id resident_def)
    have rx: "resident ?T = resident S" by (simp add: resident_def fun_eq_iff)
    have fx: "\<not> frame_referenced ?T x"
      using px by (simp add: frame_referenced_def resident_def)
    have fy: "\<And>y. y \<in> set xs \<Longrightarrow> frame_referenced ?T y = frame_referenced S y"
    proof -
      fix y assume y: "y \<in> set xs"
      with state_invD(6) [OF i] ol have "y \<noteq> x" "y \<in> set ol" by auto
      with state_inv_resident_inj [OF i xo, of y] have "resident S x \<noteq> resident S y" by auto
      then show "frame_referenced ?T y = frame_referenced S y"
        by (simp add: frame_referenced_def resident_def)
    qed
    let ?k = "length (takeWhile (frame_referenced S) xs)"
    have t1: "takeWhile (frame_referenced ?T) xs = takeWhile (frame_referenced S) xs"
      using fy by (intro takeWhile_cong) simp_all
    have t2: "takeWhile (frame_referenced ?T) (xs @ [x]) = takeWhile (frame_referenced ?T) xs"
      using fx by (rule takeWhile_snoc_False)
    have tw: "takeWhile (frame_referenced ?T) (xs @ [x]) = takeWhile (frame_referenced S) xs"
      using t1 t2 by simp
    have tk: "takeWhile (frame_referenced S) ol = x # takeWhile (frame_referenced S) xs"
      using True ol by (simp add: frame_referenced_def)
    have kl: "?k \<le> length xs" by (rule length_takeWhile_le)
    from "1.IH" [OF l e d True iT, unfolded tw] obtain t a where
      H: "second_chance_walk ?T
            = Some (?T\<lparr>pgt := t, listoccupied := a\<rparr>,
                    page (frt ?T ! ((xs @ [x]) ! (?k mod length (xs @ [x])))))
      \<and> state_inv SecondChance (?T\<lparr>pgt := t, listoccupied := a\<rparr>) []
            (rotate ?k (xs @ [x]))
      \<and> length t = length (pgt ?T)
      \<and> (\<forall>q<length (pgt ?T).
                t ! q = (if q \<in> resident ?T ` set (take ?k (xs @ [x]))
                         then (pgt ?T ! q)\<lparr>referenced := False\<rparr> else pgt ?T ! q))"
      by blast
    note a = H [THEN conjunct1]
    note b' = H [THEN conjunct2, THEN conjunct1]
    note len = H [THEN conjunct2, THEN conjunct2, THEN conjunct1]
    note q = H [THEN conjunct2, THEN conjunct2, THEN conjunct2]
    have v: "(xs @ [x]) ! (?k mod length (xs @ [x])) = ol ! (Suc ?k mod length ol)"
    proof (cases "?k = length xs")
      case True
      then show ?thesis using ol by simp
    next
      case False
      with kl have "?k < length xs" by simp
      then show ?thesis using ol by (simp add: nth_append)
    qed
    have rot: "rotate ?k (xs @ [x]) = rotate (Suc ?k) ol"
      using ol by (simp add: rotate1_rotate_swap)
    have qq: "\<forall>q<length (pgt S).
                t ! q = (if q \<in> resident S ` set (take (Suc ?k) ol)
                         then (pgt S ! q)\<lparr>referenced := False\<rparr> else pgt S ! q)"
    proof (intro allI impI)
      fix q assume ql: "q < length (pgt S)"
      have tk': "take ?k (xs @ [x]) = take ?k xs" using kl by simp
      show "t ! q = (if q \<in> resident S ` set (take (Suc ?k) ol)
                     then (pgt S ! q)\<lparr>referenced := False\<rparr> else pgt S ! q)"
      proof (cases "q = resident S x")
        case True
        with q ql px ol show ?thesis by (simp add: rx resident_def)
      next
        case False
        with q ql ol tk' show ?thesis by (auto simp add: rx resident_def)
      qed
    qed
    have kk: "length (takeWhile (frame_referenced S) ol) = Suc ?k" using tk by simp
    show ?thesis unfolding kk
    proof (intro exI [of _ t] exI [of _ a] conjI)
      show "second_chance_walk S
              = Some (S\<lparr>pgt := t, listoccupied := a\<rparr>,
                      page (frt S ! (ol ! (Suc ?k mod length ol))))"
        using a w v by simp
      show "state_inv SecondChance (S\<lparr>pgt := t, listoccupied := a\<rparr>) []
              (rotate (Suc ?k) ol)"
        using b' rot by simp
      show "length t = length (pgt S)" using len by simp
      show "\<forall>q<length (pgt S).
                t ! q = (if q \<in> resident S ` set (take (Suc ?k) ol)
                         then (pgt S ! q)\<lparr>referenced := False\<rparr> else pgt S ! q)"
        by (rule qq)
    qed
  qed
qed

text \<open>
  The walk returns on every circular list of frames that hold pages of the table, also
  when two frames hold the same page: every pardon clears a bit that was set.
\<close>

lemma second_chance_walk_returns:
  assumes "is_ring (frt S) (listoccupied S) ol" and "ol \<noteq> []"
    and "\<forall>f\<in>set ol. f < length (frt S) \<and> 0 \<le> page (frt S ! f)
                     \<and> nat (page (frt S ! f)) < length (pgt S)"
  shows "\<exists>k t a. second_chance_walk S
                = Some (S\<lparr>pgt := t, listoccupied := a\<rparr>,
                        page (frt S ! (ol ! (k mod length ol))))
            \<and> k \<le> card {q \<in> resident S ` set ol. referenced (pgt S ! q)}
            \<and> (\<forall>j<k. frame_referenced S (ol ! j))
            \<and> \<not> referenced (t ! resident S (ol ! (k mod length ol)))
            \<and> length t = length (pgt S)
            \<and> (\<forall>q<length (pgt S).
                  t ! q = (if q \<in> resident S ` set (take k ol)
                           then (pgt S ! q)\<lparr>referenced := False\<rparr> else pgt S ! q))"
  using assms
proof (induction S arbitrary: ol rule: second_chance_walk.induct)
  case (1 S)
  from "1.prems"(2) obtain x xs where ol: "ol = x # xs" by (cases ol) auto
  note r = is_ring_rotate1 [OF "1.prems"(1) [unfolded ol]]
  note rng = "1.prems"(3)
  have b: "last (x # xs) < length (frt S)" "x < length (frt S)"
    using rng ol by (metis last_in_set list.distinct(1), simp)
  have px: "0 \<le> page (frt S ! x)" "nat (page (frt S ! x)) < length (pgt S)"
    using rng ol by simp_all
  let ?l = "frt S ! last (x # xs)"
  let ?e = "frt S ! x"
  let ?d = "pgt S ! resident S x"
  have l: "rd (frt S) (listoccupied S) = Some ?l" using r(1) b by simp
  have e: "rd (frt S) (next ?l) = Some ?e" using r(2) b by simp
  have d: "rd (pgt S) (page ?e) = Some ?d"
    using px by (simp add: rd_def resident_def)
  show ?case
  proof (cases "referenced ?d")
    case False
    have w: "second_chance_walk S = Some (S, page ?e)"
      using l e d False by (subst second_chance_walk.simps) simp
    with False ol show ?thesis
      by (intro exI [of _ 0] exI [of _ "pgt S"] exI [of _ "listoccupied S"]) simp

  next
    case True
    let ?T = "S\<lparr>pgt := (pgt S)[nat (page ?e) := ?d\<lparr>referenced := False\<rparr>],
                 listoccupied := next ?l\<rparr>"
    have w: "second_chance_walk S = second_chance_walk ?T"
      using l e d True by (subst second_chance_walk.simps) simp
    have rx: "resident ?T = resident S" by (simp add: resident_def fun_eq_iff)
    have rT: "is_ring (frt ?T) (listoccupied ?T) (xs @ [x])" using r(2,3) by simp
    have rngT: "\<forall>f\<in>set (xs @ [x]). f < length (frt ?T) \<and> 0 \<le> page (frt ?T ! f)
                     \<and> nat (page (frt ?T ! f)) < length (pgt ?T)"
      using rng ol by simp
    have refT: "\<And>q. q < length (pgt S) \<Longrightarrow>
                  referenced (pgt ?T ! q) = (q \<noteq> resident S x \<and> referenced (pgt S ! q))"
      using px by (auto simp add: resident_def nth_list_update)
    let ?RS = "{q \<in> resident S ` set ol. referenced (pgt S ! q)}"
    let ?RT = "{q \<in> resident ?T ` set (xs @ [x]). referenced (pgt ?T ! q)}"
    have inr: "\<And>q. q \<in> resident S ` set ol \<Longrightarrow> q < length (pgt S)"
      using rng by (auto simp: resident_def)
    have so: "set (xs @ [x]) = set ol" using ol by auto
    have RT: "?RT = ?RS - {resident S x}"
      unfolding rx so using inr refT by blast
    have xin: "resident S x \<in> ?RS" using True ol by simp
    have fin: "finite ?RS" by simp
    have cRT: "Suc (card ?RT) = card ?RS"
      unfolding RT by (rule card_Suc_Diff1 [OF fin xin])
    have "?RT \<subseteq> resident S ` set xs" unfolding RT using ol by auto
    then have "card ?RT \<le> card (resident S ` set xs)" by (intro card_mono) simp_all
    also have "\<dots> \<le> card (set xs)" by (intro card_image_le) simp
    also have "\<dots> \<le> length xs" by (rule card_length)
    finally have cx: "card ?RT \<le> length xs" .
    have neT: "xs @ [x] \<noteq> []" by simp
    from "1.IH" [OF l e d True rT neT rngT] obtain k t a where
      H: "second_chance_walk ?T
            = Some (?T\<lparr>pgt := t, listoccupied := a\<rparr>,
                    page (frt ?T ! ((xs @ [x]) ! (k mod length (xs @ [x])))))
      \<and> k \<le> card ?RT
      \<and> (\<forall>j<k. frame_referenced ?T ((xs @ [x]) ! j))
      \<and> \<not> referenced (t ! resident ?T ((xs @ [x]) ! (k mod length (xs @ [x]))))
      \<and> length t = length (pgt ?T)
      \<and> (\<forall>q<length (pgt ?T).
                t ! q = (if q \<in> resident ?T ` set (take k (xs @ [x]))
                         then (pgt ?T ! q)\<lparr>referenced := False\<rparr> else pgt ?T ! q))"
      by blast
    note a = H [THEN conjunct1]
    note kc = H [THEN conjunct2, THEN conjunct1]
    note fr = H [THEN conjunct2, THEN conjunct2, THEN conjunct1]
    note nr = H [THEN conjunct2, THEN conjunct2, THEN conjunct2, THEN conjunct1]
    note len = H [THEN conjunct2, THEN conjunct2, THEN conjunct2, THEN conjunct2, THEN conjunct1]
    note q = H [THEN conjunct2, THEN conjunct2, THEN conjunct2, THEN conjunct2, THEN conjunct2]
    have kl: "k \<le> length xs" using kc cx by simp
    have v: "(xs @ [x]) ! (k mod length (xs @ [x])) = ol ! (Suc k mod length ol)"
    proof (cases "k = length xs")
      case True
      then show ?thesis using ol by simp
    next
      case False
      with kl have "k < length xs" by simp
      then show ?thesis using ol by (simp add: nth_append)
    qed
    have ff: "\<forall>j<Suc k. frame_referenced S (ol ! j)"
    proof (intro allI impI)
      fix j assume j: "j < Suc k"
      show "frame_referenced S (ol ! j)"
      proof (cases j)
        case 0
        with True ol show ?thesis by (simp add: frame_referenced_def)
      next
        case (Suc i)
        with j kl have i: "i < k" "i < length xs" by simp_all
        from fr i(1) have "frame_referenced ?T ((xs @ [x]) ! i)" by simp
        then have f: "referenced (pgt ?T ! resident S (xs ! i))"
          unfolding frame_referenced_def rx using i(2) by (simp add: nth_append)
        have "xs ! i \<in> set ol" using i(2) ol by simp
        then have "resident S (xs ! i) < length (pgt S)" by (intro inr) simp
        from refT [OF this] f have "referenced (pgt S ! resident S (xs ! i))" by simp
        then show ?thesis using Suc ol by (simp add: frame_referenced_def)
      qed
    qed
    have qq: "\<forall>q<length (pgt S).
                t ! q = (if q \<in> resident S ` set (take (Suc k) ol)
                         then (pgt S ! q)\<lparr>referenced := False\<rparr> else pgt S ! q)"
    proof (intro allI impI)
      fix q assume ql: "q < length (pgt S)"
      have tk': "take k (xs @ [x]) = take k xs" using kl by simp
      show "t ! q = (if q \<in> resident S ` set (take (Suc k) ol)
                     then (pgt S ! q)\<lparr>referenced := False\<rparr> else pgt S ! q)"
      proof (cases "q = resident S x")
        case True
        with q ql px ol show ?thesis by (simp add: rx resident_def)
      next
        case False
        with q ql ol tk' show ?thesis by (auto simp add: rx resident_def)
      qed
    qed
    show ?thesis
    proof (intro exI [of _ "Suc k"] exI [of _ t] exI [of _ a] conjI)
      show "second_chance_walk S
              = Some (S\<lparr>pgt := t, listoccupied := a\<rparr>,
                      page (frt S ! (ol ! (Suc k mod length ol))))"
        using a w v by simp
      show "Suc k \<le> card ?RS" using kc cRT by simp
      show "\<forall>j<Suc k. frame_referenced S (ol ! j)" by (rule ff)
      show "\<not> referenced (t ! resident S (ol ! (Suc k mod length ol)))"
        using nr [unfolded rx v] .
      show "length t = length (pgt S)" using len by simp
      show "\<forall>q<length (pgt S).
                t ! q = (if q \<in> resident S ` set (take (Suc k) ol)
                         then (pgt S ! q)\<lparr>referenced := False\<rparr> else pgt S ! q)"
        by (rule qq)
    qed
  qed
qed

text \<open>The choice of the victim, for the four variants at once.\<close>

lemma choose_inv:
  assumes i: "state_inv pol S [] ol"
  shows "\<exists>t a ol1. \<exists>f \<in> set ol1.
           choose_page_to_be_replaced pol draw S
             = Some (S\<lparr>pgt := t, listoccupied := a\<rparr>, page (frt S ! f))
           \<and> state_inv pol (S\<lparr>pgt := t, listoccupied := a\<rparr>) [] ol1
           \<and> length t = length (pgt S)
           \<and> (\<forall>q<length (pgt S). present (t ! q) = present (pgt S ! q)
                                   \<and> modified (t ! q) = modified (pgt S ! q))"
proof (cases pol)
  case FIFO
  from state_inv_occupied_nonempty [OF i] have h: "hd ol \<in> set (rotate1 ol)" by simp
  from choose_FIFO_inv [OF i [unfolded FIFO], of draw] h show ?thesis
    unfolding FIFO
    by (intro exI [of _ "pgt S"] exI [of _ "int (hd ol)"] exI [of _ "rotate1 ol"]
          bexI [of _ "hd ol"]) simp_all
next
  case Random
  from choose_Random_inv [OF i [unfolded Random], of draw] i show ?thesis
    unfolding Random
    by (intro exI [of _ "pgt S"] exI [of _ "listoccupied S"] exI [of _ ol]) auto
next
  case LRU
  from choose_LRU_inv [OF i [unfolded LRU], of draw] i show ?thesis
    unfolding LRU
    by (intro exI [of _ "pgt S"] exI [of _ "listoccupied S"] exI [of _ ol]) auto
next
  case SecondChance
  let ?k = "length (takeWhile (frame_referenced S) ol)"
  from second_chance_walk_inv [OF i [unfolded SecondChance]] obtain t a where
    w: "second_chance_walk S
          = Some (S\<lparr>pgt := t, listoccupied := a\<rparr>, page (frt S ! (ol ! (?k mod length ol))))"
    and j: "state_inv SecondChance (S\<lparr>pgt := t, listoccupied := a\<rparr>) [] (rotate ?k ol)"
    and l: "length t = length (pgt S)"
    and q: "\<forall>q<length (pgt S).
              t ! q = (if q \<in> resident S ` set (take ?k ol)
                       then (pgt S ! q)\<lparr>referenced := False\<rparr> else pgt S ! q)"
    by blast
  from state_inv_occupied_nonempty [OF i] have "ol ! (?k mod length ol) \<in> set (rotate ?k ol)"
    by simp
  moreover from q have "\<forall>q<length (pgt S). present (t ! q) = present (pgt S ! q)
                                   \<and> modified (t ! q) = modified (pgt S ! q)"
    by simp
  ultimately show ?thesis using w j l unfolding SecondChance
    by (intro exI [of _ t] exI [of _ a] exI [of _ "rotate ?k ol"]
          bexI [of _ "ol ! (?k mod length ol)"]) simp_all
qed

lemma page_number_simps [simp]:
  "page_number (S\<lparr>pgt := t\<rparr>) va = page_number S va"
  "page_number (S\<lparr>frt := fs\<rparr>) va = page_number S va"
  "page_number (S\<lparr>listfree := a\<rparr>) va = page_number S va"
  "page_number (S\<lparr>listoccupied := a\<rparr>) va = page_number S va"
  by (simp_all add: page_number_def)

text \<open>The fault handler keeps the invariant and makes the page present.\<close>

lemma handle_page_fault_inv:
  assumes i: "state_inv pol S fl ol"
    and pg: "pg < length (pgt S)" and np: "\<not> present (pgt S ! pg)"
    and pn: "page_number S va = int pg"
  shows "\<exists>S' ol'. handle_page_fault pol draw S va = Some S'
           \<and> state_inv pol S' (tl fl) ol' \<and> present (pgt S' ! pg)"
proof -
  let ?S = "S\<lparr>numpagefaults := numpagefaults S + 1\<rparr>"
  have i': "state_inv pol ?S fl ol" using i by simp
  have z: "to_unsigned (pagsz ?S) \<noteq> 0" using state_invD(1) [OF i] by simp
  show ?thesis
  proof (cases fl)
    case Nil
    then have lf: "listfree ?S = - 1" using state_inv_free_iff [OF i] by simp
    from choose_inv [OF i' [unfolded Nil], of draw] obtain t a ol1 f where
      f: "f \<in> set ol1"
      and ch: "choose_page_to_be_replaced pol draw ?S
                 = Some (?S\<lparr>pgt := t, listoccupied := a\<rparr>, page (frt ?S ! f))"
      and j: "state_inv pol (?S\<lparr>pgt := t, listoccupied := a\<rparr>) [] ol1"
      and l: "length t = length (pgt ?S)"
      and q: "\<forall>q<length (pgt ?S). present (t ! q) = present (pgt ?S ! q)
                                   \<and> modified (t ! q) = modified (pgt ?S ! q)"
      by blast
    let ?S1 = "?S\<lparr>pgt := t, listoccupied := a\<rparr>"
    have pg1: "pg < length (pgt ?S1)" and np1: "\<not> present (pgt ?S1 ! pg)"
      using pg np l q by simp_all
    from replace_page_inv [OF j f pg1 np1] obtain S' where
      "replace_page ?S1 (page (frt ?S1 ! f)) (int pg) = Some S'"
      "state_inv pol S' [] ol1" "present (pgt S' ! pg)"
      by blast
    then show ?thesis using lf z ch pn Nil
      by (intro exI [of _ S'] exI [of _ ol1])
         (simp add: handle_page_fault_def Let_def)
  next
    case (Cons f fl')
    then have lf: "listfree ?S \<noteq> - 1" using state_inv_free_iff [OF i] by simp
    from Cons have ne: "fl \<noteq> []" by simp
    from take_free_frame_inv [OF i' ne] Cons obtain fs where
      tk: "take_free_frame ?S
             = Some (?S\<lparr>frt := fs, listfree := (if fl' = [] then - 1 else listfree ?S)\<rparr>, int f)"
      and l: "length fs = length (frt ?S)" and mp: "map page fs = map page (frt ?S)"
      and rf: "is_ring fs (if fl' = [] then - 1 else listfree ?S) fl'"
      and ro: "\<forall>anchor. is_ring fs anchor ol = is_ring (frt ?S) anchor ol"
      by auto
    have pg': "pg < length (pgt ?S)" and np': "\<not> present (pgt ?S ! pg)"
      using pg np by simp_all
    from occupy_free_frame_inv [OF i' Cons pg' np' l mp rf ro] obtain S' where
      "occupy_free_frame pol (?S\<lparr>frt := fs, listfree := (if fl' = [] then - 1 else listfree ?S)\<rparr>)
         (int f) (int pg) = Some S'"
      "state_inv pol S' fl' (ol @ [f])" "present (pgt S' ! pg)"
      by blast
    then show ?thesis using lf z tk pn Cons
      by (intro exI [of _ S'] exI [of _ "ol @ [f]"])
         (auto simp add: handle_page_fault_def Let_def)
  qed
qed

section \<open>What the operations change\<close>

text \<open>What each operation leaves unchanged, in any state.\<close>

lemma take_free_frame_frame:
  assumes "take_free_frame S = Some (S1, fr)"
  shows "\<exists>fs lf. S1 = S\<lparr>frt := fs, listfree := lf\<rparr> \<and> length fs = length (frt S)"
proof (cases "next (frt S ! nat (listfree S)) = listfree S")
  case True
  with assms have "S1 = S\<lparr>frt := frt S, listfree := - 1\<rparr>"
    by (auto simp: take_free_frame_def rd_Some Let_def split: bind_splits)
  then show ?thesis by blast
next
  case False
  with assms obtain fs where "S1 = S\<lparr>frt := fs, listfree := listfree S\<rparr>"
    "length fs = length (frt S)"
    by (auto simp: take_free_frame_def rd_Some wr_Some Let_def split: bind_splits)
  then show ?thesis by blast
qed

lemma link_occupied_frame:
  assumes "link_occupied S fr = Some S1"
  shows "\<exists>fs. S1 = S\<lparr>frt := fs, listoccupied := fr\<rparr> \<and> length fs = length (frt S)"
  using assms
  by (auto simp: link_occupied_def rd_Some wr_Some split: bind_splits if_splits)

lemma occupy_free_frame_frame:
  assumes "occupy_free_frame pol S fr pg = Some S'"
  shows "\<exists>t fs lo. S' = S\<lparr>pgt := t, frt := fs, listoccupied := lo\<rparr>
           \<and> length t = length (pgt S) \<and> length fs = length (frt S)
           \<and> 0 \<le> pg \<and> nat pg < length (pgt S)
           \<and> (\<forall>q<length (pgt S). q \<noteq> nat pg \<longrightarrow> t ! q = pgt S ! q)
           \<and> present (t ! nat pg)
           \<and> modified (t ! nat pg) = (pol = LRU \<and> modified (pgt S ! nat pg))"
proof (cases "uses_ring pol")
  case True
  then consider "pol = FIFO" | "pol = SecondChance" by (auto simp: uses_ring_def)
  then obtain S1 t fs where l: "link_occupied S fr = Some S1"
    and t: "wr (pgt S1) pg (\<lambda>d. d\<lparr>present := True, frame := fr, modified := False\<rparr>) = Some t
            \<or> wr (pgt S1) pg (\<lambda>d. d\<lparr>present := True, frame := fr, modified := False,
                                      referenced := True\<rparr>) = Some t"
    and f: "wr (frt S1) fr (\<lambda>e. e\<lparr>page := pg\<rparr>) = Some fs"
    and s: "S' = S1\<lparr>pgt := t, frt := fs\<rparr>" and p: "pol \<noteq> LRU"
    using assms by cases (auto split: bind_splits)
  from link_occupied_frame [OF l] obtain fs1 where
    s1: "S1 = S\<lparr>frt := fs1, listoccupied := fr\<rparr>" "length fs1 = length (frt S)" by blast
  from s s1 have "S' = S\<lparr>pgt := t, frt := fs, listoccupied := fr\<rparr>" by simp
  moreover from t f s1 p have "length t = length (pgt S) \<and> length fs = length (frt S)
           \<and> 0 \<le> pg \<and> nat pg < length (pgt S)
           \<and> (\<forall>q<length (pgt S). q \<noteq> nat pg \<longrightarrow> t ! q = pgt S ! q)
           \<and> present (t ! nat pg)
           \<and> modified (t ! nat pg) = (pol = LRU \<and> modified (pgt S ! nat pg))"
    by (auto simp: wr_Some)
  ultimately show ?thesis by blast
next
  case False
  then consider "pol = Random" | "pol = LRU" by (cases pol) (auto simp: uses_ring_def)
  then show ?thesis
  proof cases
    case 1
    with assms obtain t fs where
      "wr (pgt S) pg (\<lambda>d. d\<lparr>present := True, frame := fr, modified := False\<rparr>) = Some t"
      "wr (frt S) fr (\<lambda>e. e\<lparr>page := pg\<rparr>) = Some fs" "S' = S\<lparr>pgt := t, frt := fs\<rparr>"
      by (auto split: bind_splits)
    with 1 show ?thesis
      by (intro exI [of _ t] exI [of _ fs] exI [of _ "listoccupied S"]) (auto simp: wr_Some)
  next
    case 2
    with assms obtain t fs t' where
      "wr (pgt S) pg (\<lambda>d. d\<lparr>frame := fr\<rparr>) = Some t"
      "wr (frt S) fr (\<lambda>e. e\<lparr>page := pg\<rparr>) = Some fs"
      "wr t pg (\<lambda>d. d\<lparr>present := True, referenced := True\<rparr>) = Some t'"
      "S' = S\<lparr>pgt := t', frt := fs\<rparr>"
      by (auto split: bind_splits)
    with 2 show ?thesis
      by (intro exI [of _ t'] exI [of _ fs] exI [of _ "listoccupied S"]) (auto simp: wr_Some)
  qed
qed

lemma second_chance_walk_frame:
  "second_chance_walk S = Some (S', v) \<Longrightarrow>
     \<exists>t lo. S' = S\<lparr>pgt := t, listoccupied := lo\<rparr>
       \<and> map (\<lambda>d. d\<lparr>referenced := False\<rparr>) t = map (\<lambda>d. d\<lparr>referenced := False\<rparr>) (pgt S)"
proof (induction S rule: second_chance_walk.induct)
  case (1 S)
  from "1.prems" obtain l e d where l: "rd (frt S) (listoccupied S) = Some l"
    and e: "rd (frt S) (next l) = Some e" and d: "rd (pgt S) (page e) = Some d"
    by (subst (asm) second_chance_walk.simps) (auto split: option.splits)
  show ?case
  proof (cases "referenced d")
    case False
    with "1.prems" l e d have "S' = S\<lparr>pgt := pgt S, listoccupied := listoccupied S\<rparr>"
      by (subst (asm) second_chance_walk.simps) simp
    then show ?thesis by blast
  next
    case True
    let ?T = "S\<lparr>pgt := (pgt S)[nat (page e) := d\<lparr>referenced := False\<rparr>],
                 listoccupied := next l\<rparr>"
    from "1.prems" l e d True have w: "second_chance_walk ?T = Some (S', v)"
      by (subst (asm) second_chance_walk.simps) simp
    from "1.IH" [OF l e d True w] obtain t lo where
      a: "S' = ?T\<lparr>pgt := t, listoccupied := lo\<rparr>"
      and b: "map (\<lambda>d. d\<lparr>referenced := False\<rparr>) t
                = map (\<lambda>d. d\<lparr>referenced := False\<rparr>) (pgt ?T)"
      by blast
    from d have "d = pgt S ! nat (page e)" by (simp add: rd_Some)
    then have "map (\<lambda>d. d\<lparr>referenced := False\<rparr>) (pgt ?T)
                 = map (\<lambda>d. d\<lparr>referenced := False\<rparr>) (pgt S)"
      by (simp add: map_update_same)
    with a b have "S' = S\<lparr>pgt := t, listoccupied := lo\<rparr>
       \<and> map (\<lambda>d. d\<lparr>referenced := False\<rparr>) t = map (\<lambda>d. d\<lparr>referenced := False\<rparr>) (pgt S)"
      by simp
    then show ?thesis by blast
  qed
qed

lemma unreferenced_eq:
  assumes "map (\<lambda>d. d\<lparr>referenced := False\<rparr>) t = map (\<lambda>d. d\<lparr>referenced := False\<rparr>) u"
  shows "length t = length u"
    and "q < length u \<Longrightarrow> present (t ! q) = present (u ! q)"
    and "q < length u \<Longrightarrow> modified (t ! q) = modified (u ! q)"
proof -
  show l: "length t = length u" using assms by (rule map_eq_imp_length_eq)
  assume q: "q < length u"
  have "(t ! q)\<lparr>referenced := False\<rparr> = map (\<lambda>d. d\<lparr>referenced := False\<rparr>) u ! q"
    using map_eq_nth [OF assms, of q] q l by simp
  then have e: "(t ! q)\<lparr>referenced := False\<rparr> = (u ! q)\<lparr>referenced := False\<rparr>"
    using q by simp
  from arg_cong [OF e, of present] show "present (t ! q) = present (u ! q)" by simp
  from arg_cong [OF e, of modified] show "modified (t ! q) = modified (u ! q)" by simp
qed

lemma choose_frame:
  assumes "choose_page_to_be_replaced pol draw S = Some (S1, v)"
  shows "\<exists>t lo. S1 = S\<lparr>pgt := t, listoccupied := lo\<rparr>
           \<and> map (\<lambda>d. d\<lparr>referenced := False\<rparr>) t = map (\<lambda>d. d\<lparr>referenced := False\<rparr>) (pgt S)"
proof (cases pol)
  case FIFO
  with assms obtain lo where "S1 = S\<lparr>pgt := pgt S, listoccupied := lo\<rparr>"
    by (auto split: bind_splits)
  then show ?thesis by blast
next
  case Random
  with assms have "S1 = S\<lparr>pgt := pgt S, listoccupied := listoccupied S\<rparr>"
    by (auto split: bind_splits)
  then show ?thesis by blast
next
  case LRU
  with assms have "S1 = S\<lparr>pgt := pgt S, listoccupied := listoccupied S\<rparr>"
    by (auto split: bind_splits)
  then show ?thesis by blast
next
  case SecondChance
  with assms have "second_chance_walk S = Some (S1, v)" by simp
  then show ?thesis by (rule second_chance_walk_frame)
qed

lemma replace_page_frame:
  assumes "replace_page S victim newpage = Some S'"
  shows "\<exists>fs. S' = S\<lparr>pgt := (pgt S)[nat victim := (pgt S ! nat victim)\<lparr>present := False\<rparr>,
                              nat newpage := ((pgt S)[nat victim := (pgt S ! nat victim)\<lparr>present := False\<rparr>] ! nat newpage)
                                 \<lparr>present := True, frame := frame (pgt S ! nat victim), modified := False\<rparr>],
                       frt := fs,
                       numpgwriteback := numpgwriteback S
                         + (if modified (pgt S ! nat victim) then 1 else 0)\<rparr>
           \<and> length fs = length (frt S)
           \<and> 0 \<le> victim \<and> nat victim < length (pgt S)
           \<and> 0 \<le> newpage \<and> nat newpage < length (pgt S)"
proof -
  let ?v = "pgt S ! nat victim"
  let ?S1 = "if modified ?v then S\<lparr>numpgwriteback := numpgwriteback S + 1\<rparr> else S"
  from assms obtain t t' fs where v: "0 \<le> victim" "nat victim < length (pgt S)"
    and t: "wr (pgt ?S1) victim (\<lambda>d. d\<lparr>present := False\<rparr>) = Some t"
    and t': "wr t newpage (\<lambda>d. d\<lparr>present := True, frame := frame ?v, modified := False\<rparr>)
               = Some t'"
    and fs: "wr (frt ?S1) (frame ?v) (\<lambda>e. e\<lparr>page := newpage\<rparr>) = Some fs"
    and s: "S' = ?S1\<lparr>pgt := t', frt := fs\<rparr>"
    by (auto simp: replace_page_def rd_Some Let_def split: bind_splits)
  have p: "pgt ?S1 = pgt S" "frt ?S1 = frt S" by simp_all
  from t have t1: "t = (pgt S)[nat victim := ?v\<lparr>present := False\<rparr>]"
    unfolding p by (simp add: wr_Some)
  from t' t1 have t2: "t' = t[nat newpage := (t ! nat newpage)
                                   \<lparr>present := True, frame := frame ?v, modified := False\<rparr>]"
    and n: "0 \<le> newpage" "nat newpage < length (pgt S)"
    by (auto simp: wr_Some)
  from fs have l: "length fs = length (frt S)" unfolding p by (auto simp: wr_Some)
  have "S' = S\<lparr>pgt := t', frt := fs,
                 numpgwriteback := numpgwriteback S + (if modified ?v then 1 else 0)\<rparr>"
    using s by (cases "modified ?v") simp_all
  with t1 t2 l v n show ?thesis by (intro exI [of _ fs]) simp
qed

lemma count_reference_frame:
  assumes "count_reference S pg op = Some S'"
  shows "S' = S\<lparr>pgt := pgt S', numrefsread := numrefsread S', numrefswrite := numrefswrite S'\<rparr>"
    and "map present (pgt S') = map present (pgt S)"
    and "map frame (pgt S') = map frame (pgt S)"
    and "\<forall>q<length (pgt S). modified (pgt S' ! q)
                               = (modified (pgt S ! q) \<or> int q = pg \<and> op = CHR ''W'')"
proof -
  consider "op = CHR ''R''" | "op = CHR ''W''" | "op \<noteq> CHR ''R''" "op \<noteq> CHR ''W''" by blast
  then have "S' = S\<lparr>pgt := pgt S', numrefsread := numrefsread S', numrefswrite := numrefswrite S'\<rparr>
    \<and> map present (pgt S') = map present (pgt S)
    \<and> map frame (pgt S') = map frame (pgt S)
    \<and> (\<forall>q<length (pgt S). modified (pgt S' ! q)
                               = (modified (pgt S ! q) \<or> int q = pg \<and> op = CHR ''W''))"
  proof cases
    case 1
    with assms have "S' = S\<lparr>numrefsread := numrefsread S + 1\<rparr>"
      by (auto simp: count_reference_def)
    with 1 show ?thesis by simp
  next
    case 2
    with assms have s: "S' = S\<lparr>pgt := (pgt S)[nat pg := (pgt S ! nat pg)\<lparr>modified := True\<rparr>],
                            numrefswrite := numrefswrite S + 1\<rparr>"
      and r: "0 \<le> pg" "nat pg < length (pgt S)"
      by (auto simp: count_reference_def wr_Some split: bind_splits)
    have "\<forall>q<length (pgt S).
            modified ((pgt S)[nat pg := (pgt S ! nat pg)\<lparr>modified := True\<rparr>] ! q)
              = (modified (pgt S ! q) \<or> int q = pg \<and> op = CHR ''W'')"
      using 2 r by (auto simp: nth_list_update)
    with s show ?thesis by (simp add: map_update_same)
  next
    case 3
    with assms have "S' = S" by (auto simp: count_reference_def)
    with 3 show ?thesis by simp
  qed
  then show "S' = S\<lparr>pgt := pgt S', numrefsread := numrefsread S', numrefswrite := numrefswrite S'\<rparr>"
    and "map present (pgt S') = map present (pgt S)"
    and "map frame (pgt S') = map frame (pgt S)"
    and "\<forall>q<length (pgt S). modified (pgt S' ! q)
                               = (modified (pgt S ! q) \<or> int q = pg \<and> op = CHR ''W'')"
    by blast+
qed

lemma reference_page_frame:
  assumes "reference_page pol S pg op = Some S'"
  shows "S' = S\<lparr>pgt := pgt S', clock := clock S', numrefsread := numrefsread S',
                 numrefswrite := numrefswrite S'\<rparr>"
    and "map present (pgt S') = map present (pgt S)"
    and "map frame (pgt S') = map frame (pgt S)"
    and "\<forall>q<length (pgt S). modified (pgt S' ! q)
                               = (modified (pgt S ! q) \<or> int q = pg \<and> op = CHR ''W'')"
proof -
  have "\<exists>S1. count_reference S pg op = Some S1
          \<and> S' = S1\<lparr>pgt := pgt S', clock := clock S'\<rparr>
          \<and> map present (pgt S') = map present (pgt S1)
          \<and> map frame (pgt S') = map frame (pgt S1)
          \<and> (\<forall>q<length (pgt S1). modified (pgt S' ! q) = modified (pgt S1 ! q))"
  proof (cases pol)
    case FIFO
    with assms show ?thesis by (intro exI [of _ S']) simp
  next
    case Random
    with assms show ?thesis by (intro exI [of _ S']) simp
  next
    case SecondChance
    with assms obtain S1 t where "count_reference S pg op = Some S1"
      "wr (pgt S1) pg (\<lambda>d. d\<lparr>referenced := True\<rparr>) = Some t" "S' = S1\<lparr>pgt := t\<rparr>"
      by (auto split: bind_splits)
    then show ?thesis
      by (intro exI [of _ S1])
         (auto simp: wr_Some map_update_same nth_list_update split: if_splits)
  next
    case LRU
    with assms obtain S1 t where "count_reference S pg op = Some S1"
      "wr (pgt S1) pg (\<lambda>d. d\<lparr>timestamp := clock S1\<rparr>) = Some t"
      "S' = S1\<lparr>pgt := t, clock := clock S1 + 1\<rparr>"
      by (auto split: bind_splits)
    then show ?thesis
      by (intro exI [of _ S1])
         (auto simp: wr_Some map_update_same nth_list_update split: if_splits)
  qed
  then obtain S1 where c: "count_reference S pg op = Some S1"
    and s: "S' = S1\<lparr>pgt := pgt S', clock := clock S'\<rparr>"
    and p: "map present (pgt S') = map present (pgt S1)"
    and fr: "map frame (pgt S') = map frame (pgt S1)"
    and m: "\<forall>q<length (pgt S1). modified (pgt S' ! q) = modified (pgt S1 ! q)"
    by blast
  note f = count_reference_frame [OF c]
  from f(2) have l: "length (pgt S1) = length (pgt S)" by (rule map_eq_imp_length_eq)
  have "S1\<lparr>pgt := pgt S', clock := clock S'\<rparr>
          = S\<lparr>pgt := pgt S', clock := clock S', numrefsread := numrefsread S1,
               numrefswrite := numrefswrite S1\<rparr>"
    by (subst f(1)) simp
  moreover have "numrefsread S' = numrefsread S1" "numrefswrite S' = numrefswrite S1"
    by (subst s, simp)+
  ultimately show "S' = S\<lparr>pgt := pgt S', clock := clock S', numrefsread := numrefsread S',
                 numrefswrite := numrefswrite S'\<rparr>"
    using s by simp
  show "map present (pgt S') = map present (pgt S)" using p f(2) by simp
  show "map frame (pgt S') = map frame (pgt S)" using fr f(3) by simp
  show "\<forall>q<length (pgt S). modified (pgt S' ! q)
                               = (modified (pgt S ! q) \<or> int q = pg \<and> op = CHR ''W'')"
    using m f(4) l by simp
qed

lemma handle_page_fault_frame:
  assumes h: "handle_page_fault pol draw S va = Some S'"
  shows "pagsz S' = pagsz S \<and> numpags S' = numpags S \<and> numframes S' = numframes S
         \<and> length (pgt S') = length (pgt S) \<and> length (frt S') = length (frt S)
         \<and> (listfree S = - 1 \<longrightarrow> listfree S' = - 1)"
    and "0 \<le> page_number S va" "nat (page_number S va) < length (pgt S)"
    and "present (pgt S' ! nat (page_number S va))"
    and "modified (pgt S' ! nat (page_number S va))
           = (pol = LRU \<and> listfree S \<noteq> - 1 \<and> modified (pgt S ! nat (page_number S va)))"
    and "\<And>q. q < length (pgt S) \<Longrightarrow> q \<noteq> nat (page_number S va) \<Longrightarrow>
               modified (pgt S' ! q) = modified (pgt S ! q)
               \<and> (present (pgt S' ! q) \<longrightarrow> present (pgt S ! q))
               \<and> (present (pgt S ! q) \<and> \<not> present (pgt S' ! q) \<longrightarrow>
                    numpgwriteback S' = numpgwriteback S
                      + (if modified (pgt S ! q) then 1 else 0))"
proof -
  have "pagsz S' = pagsz S \<and> numpags S' = numpags S \<and> numframes S' = numframes S
         \<and> length (pgt S') = length (pgt S) \<and> length (frt S') = length (frt S)
         \<and> (listfree S = - 1 \<longrightarrow> listfree S' = - 1)
         \<and> 0 \<le> page_number S va \<and> nat (page_number S va) < length (pgt S)
         \<and> present (pgt S' ! nat (page_number S va))
         \<and> (modified (pgt S' ! nat (page_number S va))
              \<longrightarrow> pol = LRU \<and> listfree S \<noteq> - 1 \<and> modified (pgt S ! nat (page_number S va)))
         \<and> (pol = LRU \<and> listfree S \<noteq> - 1 \<and> modified (pgt S ! nat (page_number S va))
              \<longrightarrow> modified (pgt S' ! nat (page_number S va)))
         \<and> (\<forall>q<length (pgt S). q \<noteq> nat (page_number S va) \<longrightarrow>
               modified (pgt S' ! q) = modified (pgt S ! q)
               \<and> (present (pgt S' ! q) \<longrightarrow> present (pgt S ! q))
               \<and> (present (pgt S ! q) \<and> \<not> present (pgt S' ! q) \<longrightarrow>
                    numpgwriteback S' = numpgwriteback S
                      + (if modified (pgt S ! q) then 1 else 0)))"
  proof (cases "listfree S = - 1")
  case False
  let ?S = "S\<lparr>numpagefaults := numpagefaults S + 1\<rparr>"
  from h False obtain S1 fr where t: "take_free_frame ?S = Some (S1, fr)"
    and o: "occupy_free_frame pol S1 fr (page_number S va) = Some S'"
    by (auto simp: handle_page_fault_def Let_def split: if_splits bind_splits)
  from take_free_frame_frame [OF t] obtain fs lf where
    s1: "S1 = ?S\<lparr>frt := fs, listfree := lf\<rparr>" "length fs = length (frt S)" by auto
  from occupy_free_frame_frame [OF o] obtain t' fs' lo where
    s': "S' = S1\<lparr>pgt := t', frt := fs', listoccupied := lo\<rparr>"
    and l: "length t' = length (pgt S1)" "length fs' = length (frt S1)"
    and r: "0 \<le> page_number S va" "nat (page_number S va) < length (pgt S1)"
    and q: "\<forall>q<length (pgt S1). q \<noteq> nat (page_number S va) \<longrightarrow> t' ! q = pgt S1 ! q"
    and p: "present (t' ! nat (page_number S va))"
    and m: "modified (t' ! nat (page_number S va))
              = (pol = LRU \<and> modified (pgt S1 ! nat (page_number S va)))"
    by blast
  from s1 s' l r q p m False show ?thesis by simp
next
  case True
  let ?S = "S\<lparr>numpagefaults := numpagefaults S + 1\<rparr>"
  let ?pn = "page_number S va"
  from h True obtain S1 v where c: "choose_page_to_be_replaced pol draw ?S = Some (S1, v)"
    and r: "replace_page S1 v ?pn = Some S'"
    by (auto simp: handle_page_fault_def Let_def split: if_splits bind_splits)
  from choose_frame [OF c] obtain t lo where
    s1: "S1 = ?S\<lparr>pgt := t, listoccupied := lo\<rparr>"
    and u: "map (\<lambda>d. d\<lparr>referenced := False\<rparr>) t = map (\<lambda>d. d\<lparr>referenced := False\<rparr>) (pgt ?S)"
    by blast
  have ps: "pgt ?S = pgt S" by simp
  note e = unreferenced_eq [OF u, unfolded ps]
  let ?t1 = "t[nat v := (t ! nat v)\<lparr>present := False\<rparr>]"
  let ?t2 = "?t1[nat ?pn := (?t1 ! nat ?pn)\<lparr>present := True, frame := frame (t ! nat v),
                                             modified := False\<rparr>]"
  from replace_page_frame [OF r] s1 obtain fs where
    s': "S' = S1\<lparr>pgt := ?t2, frt := fs,
                   numpgwriteback := numpgwriteback S1 + (if modified (t ! nat v) then 1 else 0)\<rparr>"
    and l: "length fs = length (frt S1)"
    and rv: "0 \<le> v" "nat v < length t" and rp: "0 \<le> ?pn" "nat ?pn < length t"
    by auto
  have pt: "pgt S' = ?t2" and wb: "numpgwriteback S'
             = numpgwriteback S + (if modified (t ! nat v) then 1 else 0)"
    and cf: "pagsz S' = pagsz S" "numpags S' = numpags S" "numframes S' = numframes S"
      "length (frt S') = length (frt S)" "listfree S' = listfree S"
    using s' s1 l by simp_all
  have a: "present (?t2 ! nat ?pn)" "\<not> modified (?t2 ! nat ?pn)"
    using rp by simp_all
  have b: "\<forall>q<length (pgt S). q \<noteq> nat ?pn \<longrightarrow>
               modified (?t2 ! q) = modified (pgt S ! q)
               \<and> (present (?t2 ! q) \<longrightarrow> present (pgt S ! q))
               \<and> (present (pgt S ! q) \<and> \<not> present (?t2 ! q) \<longrightarrow> q = nat v)"
    using e rv by (auto simp: nth_list_update)
  have c': "modified (t ! nat v) = modified (pgt S ! nat v)"
    using e rv by simp
  show ?thesis
    unfolding pt wb cf using a b c' True e(1) rp by auto
qed
  then show "pagsz S' = pagsz S \<and> numpags S' = numpags S \<and> numframes S' = numframes S
         \<and> length (pgt S') = length (pgt S) \<and> length (frt S') = length (frt S)
         \<and> (listfree S = - 1 \<longrightarrow> listfree S' = - 1)"
    and "0 \<le> page_number S va" "nat (page_number S va) < length (pgt S)"
    and "present (pgt S' ! nat (page_number S va))"
    and "modified (pgt S' ! nat (page_number S va))
           = (pol = LRU \<and> listfree S \<noteq> - 1 \<and> modified (pgt S ! nat (page_number S va)))"
    and "\<And>q. q < length (pgt S) \<Longrightarrow> q \<noteq> nat (page_number S va) \<Longrightarrow>
               modified (pgt S' ! q) = modified (pgt S ! q)
               \<and> (present (pgt S' ! q) \<longrightarrow> present (pgt S ! q))
               \<and> (present (pgt S ! q) \<and> \<not> present (pgt S' ! q) \<longrightarrow>
                    numpgwriteback S' = numpgwriteback S
                      + (if modified (pgt S ! q) then 1 else 0))"
    by blast+
qed

lemma sim_mmu_illegal:
  assumes "sim_mmu pol draw S va op = Some (S', pa)"
    and "\<not> (0 \<le> page_number S va \<and> page_number S va < numpags S)"
  shows "S' = S\<lparr>numillegalrefs := numillegalrefs S + 1\<rparr>" "pa = NOT 0"
  using assms by (auto simp: sim_mmu_def Let_def split: if_splits)

lemma sim_mmu_legal:
  assumes s: "sim_mmu pol draw S va op = Some (S', pa)"
    and r: "0 \<le> page_number S va" "page_number S va < numpags S"
  shows "\<exists>S1. (if \<not> present (pgt S ! nat (page_number S va))
               then handle_page_fault pol draw S va else Some S) = Some S1
           \<and> reference_page pol S1 (page_number S va) op = Some S'
           \<and> nat (page_number S va) < length (pgt S)
           \<and> nat (page_number S va) < length (pgt S1)
           \<and> pa = to_unsigned (frame (pgt S1 ! nat (page_number S va)) * pagsz S1
                                 + page_offset S va)"
  using s r
  by (auto simp: sim_mmu_def Let_def rd_Some split: if_splits bind_splits)

lemma sim_mmu_frame:
  assumes s: "sim_mmu pol draw S va op = Some (S', pa)"
  shows "pagsz S' = pagsz S \<and> numpags S' = numpags S \<and> numframes S' = numframes S
         \<and> length (pgt S') = length (pgt S) \<and> length (frt S') = length (frt S)
         \<and> (listfree S = - 1 \<longrightarrow> listfree S' = - 1)"
proof (cases "0 \<le> page_number S va \<and> page_number S va < numpags S")
  case False
  with sim_mmu_illegal(1) [OF s] show ?thesis by auto
next
  case True
  let ?pn = "page_number S va"
  from sim_mmu_legal [OF s] True obtain S1 where
    h: "(if \<not> present (pgt S ! nat ?pn) then handle_page_fault pol draw S va else Some S)
          = Some S1"
    and rp: "reference_page pol S1 ?pn op = Some S'"
    by blast
  note f = reference_page_frame [OF rp]
  from f(2) have len: "length (pgt S') = length (pgt S1)" by (rule map_eq_imp_length_eq)
  have cf: "pagsz S' = pagsz S1" "numpags S' = numpags S1" "numframes S' = numframes S1"
    "frt S' = frt S1" "listfree S' = listfree S1"
    by (subst f(1), simp)+
  show ?thesis
  proof (cases "present (pgt S ! nat ?pn)")
    case True
    with h have "S1 = S" by simp
    with len cf show ?thesis by simp
  next
    case False
    with h have "handle_page_fault pol draw S va = Some S1" by simp
    from handle_page_fault_frame(1) [OF this] len cf show ?thesis by simp
  qed
qed

lemma sim_mmu_pages:
  assumes s: "sim_mmu pol draw S va op = Some (S', pa)"
    and r: "0 \<le> page_number S va" "page_number S va < numpags S"
  shows "nat (page_number S va) < length (pgt S)"
    and "present (pgt S' ! nat (page_number S va))"
    and "modified (pgt S' ! nat (page_number S va))
           = (op = CHR ''W''
              \<or> (if present (pgt S ! nat (page_number S va))
                  then modified (pgt S ! nat (page_number S va))
                  else pol = LRU \<and> listfree S \<noteq> - 1
                       \<and> modified (pgt S ! nat (page_number S va))))"
    and "\<And>q. q < length (pgt S) \<Longrightarrow> q \<noteq> nat (page_number S va) \<Longrightarrow>
           modified (pgt S' ! q) = modified (pgt S ! q)
           \<and> (present (pgt S' ! q) \<longrightarrow> present (pgt S ! q))
           \<and> (present (pgt S ! q) \<and> \<not> present (pgt S' ! q) \<longrightarrow>
                numpgwriteback S' = numpgwriteback S
                  + (if modified (pgt S ! q) then 1 else 0))"
    and "pa = to_unsigned (frame (pgt S' ! nat (page_number S va)) * pagsz S
                            + page_offset S va)"
proof -
  let ?pn = "page_number S va"
  from sim_mmu_legal [OF s r] obtain S1 where
    h: "(if \<not> present (pgt S ! nat ?pn) then handle_page_fault pol draw S va else Some S)
          = Some S1"
    and rp: "reference_page pol S1 ?pn op = Some S'"
    and l: "nat ?pn < length (pgt S)" "nat ?pn < length (pgt S1)"
    and pa: "pa = to_unsigned (frame (pgt S1 ! nat ?pn) * pagsz S1 + page_offset S va)"
    by blast
  note f = reference_page_frame [OF rp]
  from f(2) have len: "length (pgt S') = length (pgt S1)" by (rule map_eq_imp_length_eq)
  have pres: "\<And>q. q < length (pgt S1) \<Longrightarrow> present (pgt S' ! q) = present (pgt S1 ! q)"
    using map_eq_nth [OF f(2)] len by simp
  have wb: "numpgwriteback S' = numpgwriteback S1"
    by (subst f(1)) simp
  have pn: "\<And>q. (int q = ?pn) = (q = nat ?pn)" using r by auto
  have md: "\<And>q. q < length (pgt S1) \<Longrightarrow>
              modified (pgt S' ! q) = (modified (pgt S1 ! q) \<or> q = nat ?pn \<and> op = CHR ''W'')"
    using f(4) by (simp add: pn)
  have K: "(length (pgt S1) = length (pgt S) \<and> pagsz S1 = pagsz S)
      \<and> present (pgt S1 ! nat ?pn)
      \<and> modified (pgt S1 ! nat ?pn)
               = (if present (pgt S ! nat ?pn) then modified (pgt S ! nat ?pn)
                  else pol = LRU \<and> listfree S \<noteq> - 1 \<and> modified (pgt S ! nat ?pn))
      \<and> (\<forall>q. q < length (pgt S) \<longrightarrow> q \<noteq> nat ?pn \<longrightarrow>
               modified (pgt S1 ! q) = modified (pgt S ! q)
               \<and> (present (pgt S1 ! q) \<longrightarrow> present (pgt S ! q))
               \<and> (present (pgt S ! q) \<and> \<not> present (pgt S1 ! q) \<longrightarrow>
                    numpgwriteback S1 = numpgwriteback S
                      + (if modified (pgt S ! q) then 1 else 0)))"
  proof (cases "present (pgt S ! nat ?pn)")
    case True
    with h have "S1 = S" by simp
    with True show ?thesis
      by simp
  next
    case False
    with h have "handle_page_fault pol draw S va = Some S1" by simp
    note g = handle_page_fault_frame [OF this]
    from g(1,4,5) g(6) False
    show ?thesis
      by simp
  qed
  note S1 = K [THEN conjunct1, THEN conjunct1] K [THEN conjunct1, THEN conjunct2]
  note p1 = K [THEN conjunct2, THEN conjunct1]
  note m1 = K [THEN conjunct2, THEN conjunct2, THEN conjunct1]
  note q1 = K [THEN conjunct2, THEN conjunct2, THEN conjunct2, rule_format]
  show "nat ?pn < length (pgt S)" by (rule l(1))
  show "present (pgt S' ! nat ?pn)" using pres [OF l(2)] p1 by simp
  show "modified (pgt S' ! nat ?pn)
           = (op = CHR ''W''
              \<or> (if present (pgt S ! nat ?pn) then modified (pgt S ! nat ?pn)
                  else pol = LRU \<and> listfree S \<noteq> - 1 \<and> modified (pgt S ! nat ?pn)))"
    using md [OF l(2)] m1 by auto
  show "pa = to_unsigned (frame (pgt S' ! nat ?pn) * pagsz S + page_offset S va)"
    using pa map_eq_nth [OF f(3), of "nat ?pn"] l(2) len S1(2)
    by simp
  fix q assume q: "q < length (pgt S)" "q \<noteq> nat ?pn"
  from q1 [OF q] md [of q] pres [of q] q S1(1) wb
  show "modified (pgt S' ! q) = modified (pgt S ! q)
           \<and> (present (pgt S' ! q) \<longrightarrow> present (pgt S ! q))
           \<and> (present (pgt S ! q) \<and> \<not> present (pgt S' ! q) \<longrightarrow>
                numpgwriteback S' = numpgwriteback S
                  + (if modified (pgt S ! q) then 1 else 0))"
    by simp
qed

section \<open>The invariant along a run\<close>

lemma reference_page_total:
  assumes pg: "pg < length (pgt S)"
  shows "\<exists>S'. reference_page pol S (int pg) op = Some S'"
proof -
  have c: "\<exists>S1. count_reference S (int pg) op = Some S1 \<and> length (pgt S1) = length (pgt S)"
    using pg by (auto simp: count_reference_def wr_def)
  then obtain S1 where "count_reference S (int pg) op = Some S1"
    "length (pgt S1) = length (pgt S)" by blast
  with pg show ?thesis by (cases pol) (simp_all add: wr_def)
qed

lemma reference_page_inv:
  assumes i: "state_inv pol S fl ol" and pg: "pg < length (pgt S)"
    and pr: "present (pgt S ! pg)"
  shows "\<exists>S'. reference_page pol S (int pg) op = Some S' \<and> state_inv pol S' fl ol"
proof -
  from reference_page_total [OF pg] obtain S' where
    r: "reference_page pol S (int pg) op = Some S'" by blast
  note f = reference_page_frame [OF r]
  have c: "pagsz S' = pagsz S" "numframes S' = numframes S" "numpags S' = numpags S"
    "listfree S' = listfree S" "frt S' = frt S" "listoccupied S' = listoccupied S"
    by (subst f(1), simp)+
  have "state_inv pol S' fl ol"
  proof (rule state_inv_same_tables [OF i c(1-5) f(2,3)])
    fix q assume "q < length (pgt S)" "modified (pgt S' ! q)"
    with f(4) pr show "modified (pgt S ! q) \<or> present (pgt S ! q)" by auto
  qed (use c state_invD(6,9,10) [OF i] in simp_all)
  with r show ?thesis by blast
qed

text \<open>One call of the MMU.\<close>

lemma sim_mmu_inv:
  assumes i: "state_inv pol S fl ol"
  shows "\<exists>S' pa ol'. sim_mmu pol draw S va op = Some (S', pa)
           \<and> state_inv pol S'
                 (if 0 \<le> page_number S va \<and> page_number S va < numpags S
                     \<and> \<not> present (pgt S ! nat (page_number S va))
                  then tl fl else fl) ol'"
proof (cases "0 \<le> page_number S va \<and> page_number S va < numpags S")
  case False
  have "state_inv pol (S\<lparr>numillegalrefs := numillegalrefs S + 1\<rparr>) fl ol"
    using i by (simp add: state_inv_def)
  moreover have "sim_mmu pol draw S va op
                   = Some (S\<lparr>numillegalrefs := numillegalrefs S + 1\<rparr>, NOT 0)"
    using False state_invD(1) [OF i] by (auto simp: sim_mmu_def Let_def)
  ultimately show ?thesis using False by auto
next
  case True
  define pg where "pg = nat (page_number S va)"
  with True state_invD(5) [OF i] have pg: "pg < length (pgt S)" "page_number S va = int pg"
    by auto
  define fl' where "fl' = (if \<not> present (pgt S ! pg) then tl fl else fl)"
  have "\<exists>S1 ol'. (if \<not> present (pgt S ! pg) then handle_page_fault pol draw S va else Some S)
                        = Some S1
          \<and> state_inv pol S1 fl' ol' \<and> present (pgt S1 ! pg)
          \<and> length (pgt S1) = length (pgt S)"
  proof (cases "present (pgt S ! pg)")
    case True
    with i show ?thesis unfolding fl'_def by (intro exI [of _ S] exI [of _ ol]) simp
  next
    case False
    from handle_page_fault_inv [OF i pg(1) False pg(2), of draw] obtain S1 ol' where
      h: "handle_page_fault pol draw S va = Some S1" "state_inv pol S1 (tl fl) ol'"
        "present (pgt S1 ! pg)" by blast
    from handle_page_fault_frame(1) [OF h(1)] have "length (pgt S1) = length (pgt S)" by simp
    with h False show ?thesis unfolding fl'_def by (intro exI [of _ S1] exI [of _ ol']) simp
  qed
  then obtain S1 ol' where
    h: "(if \<not> present (pgt S ! pg) then handle_page_fault pol draw S va else Some S) = Some S1"
    and j: "state_inv pol S1 fl' ol'" and p1: "present (pgt S1 ! pg)"
    and l1: "length (pgt S1) = length (pgt S)"
    by blast
  have pg1: "pg < length (pgt S1)" using pg l1 by simp
  from reference_page_inv [OF j pg1 p1, of op] obtain S2 where
    r: "reference_page pol S1 (int pg) op = Some S2" and k: "state_inv pol S2 fl' ol'"
    by blast
  have "sim_mmu pol draw S va op
          = Some (S2, to_unsigned (frame (pgt S1 ! pg) * pagsz S1 + page_offset S va))"
    using True state_invD(1) [OF i] pg h r pg1
    by (simp add: sim_mmu_def Let_def rd_def del: if_not_P)
  moreover have "fl' = (if 0 \<le> page_number S va \<and> page_number S va < numpags S
                            \<and> \<not> present (pgt S ! nat (page_number S va))
                         then tl fl else fl)"
    using True by (simp add: fl'_def pg_def)
  ultimately show ?thesis using k by auto
qed

section \<open>The initial state\<close>

lemma init_loop_result:
  assumes "n \<le> int (length fs)" and "0 \<le> i" and "i \<le> n - 1"
  shows "\<exists>fs'. init_loop fs n i = Some (fs', n - 1) \<and> length fs' = length fs
           \<and> (\<forall>j<length fs. fs' ! j = (if i \<le> int j \<and> int j < n - 1
                                         then (fs ! j)\<lparr>page := - 1, next := int j + 1\<rparr>
                                         else fs ! j))"
  using assms
proof (induction fs n i rule: init_loop.induct)
  case (1 fs n i)
  show ?case
  proof (cases "i < n - 1")
    case False
    with "1.prems" have "i = n - 1" by simp
    then show ?thesis by (subst init_loop.simps) auto
  next
    case True
    let ?fs1 = "fs[nat i := (fs ! nat i)\<lparr>page := - 1, next := i + 1\<rparr>]"
    have w: "wr fs i (\<lambda>e. e\<lparr>page := - 1, next := i + 1\<rparr>) = Some ?fs1"
      using True "1.prems" by (simp add: wr_def)
    from "1.IH" [OF True w] True "1.prems" obtain fs' where
      a: "init_loop ?fs1 n (i + 1) = Some (fs', n - 1)" and l: "length fs' = length fs"
      and q: "\<forall>j<length fs. fs' ! j = (if i + 1 \<le> int j \<and> int j < n - 1
                                         then (?fs1 ! j)\<lparr>page := - 1, next := int j + 1\<rparr>
                                         else ?fs1 ! j)"
      by auto
    have "init_loop fs n i = Some (fs', n - 1)"
      using True w a by (subst init_loop.simps) simp
    moreover have "\<forall>j<length fs. fs' ! j = (if i \<le> int j \<and> int j < n - 1
                                         then (fs ! j)\<lparr>page := - 1, next := int j + 1\<rparr>
                                         else fs ! j)"
    proof (intro allI impI)
      fix j assume j: "j < length fs"
      show "fs' ! j = (if i \<le> int j \<and> int j < n - 1
                       then (fs ! j)\<lparr>page := - 1, next := int j + 1\<rparr> else fs ! j)"
      proof (cases "int j = i")
        case True
        with q j \<open>i < n - 1\<close> "1.prems" show ?thesis by (simp add: nth_list_update)
      next
        case False
        then have "nat i \<noteq> j" using "1.prems" by auto
        with q j False show ?thesis by (auto simp: nth_list_update)
      qed
    qed
    ultimately show ?thesis using l by blast
  qed
qed

lemma path_upt:
  assumes "\<forall>j. a \<le> j \<and> j < b \<longrightarrow> next (fs ! j) = int (Suc j)" and "a \<le> b"
  shows "path fs (int a) [a..<b] (int b)"
  using assms
proof (induction "b - a" arbitrary: a)
  case 0
  then show ?case by simp
next
  case (Suc d)
  then have ab: "a < b" by simp
  from Suc.hyps(1) [of "Suc a"] Suc.hyps(2) Suc.prems ab
  have "path fs (int (Suc a)) [Suc a..<b] (int b)" by simp
  with Suc.prems ab show ?case by (simp add: upt_conv_Cons)
qed

lemma init_tables_inv:
  assumes u: "usable S0"
  shows "\<exists>S. init_tables pol S0 = Some S
           \<and> state_inv pol S [0..<nat (numframes S0)] []"
proof -
  let ?n = "numframes S0"
  let ?N = "nat ?n"
  from u have z: "to_unsigned (pagsz S0) \<noteq> 0" and n: "0 < ?n" "?n < 2 ^ 31"
    and lf: "int (length (frt S0)) = ?n" and lp: "int (length (pgt S0)) = numpags S0"
    by (simp_all add: usable_def)
  from lf have lf': "length (frt S0) = ?N" by simp
  let ?t = "replicate (nat (numpags S0)) zero_page @ drop (nat (numpags S0)) (pgt S0)"
  have t: "?t = replicate (length (pgt S0)) zero_page" using lp by simp
  from init_loop_result [of ?n "frt S0" 0] n lf obtain fs where
    a: "init_loop (frt S0) ?n 0 = Some (fs, ?n - 1)" and l: "length fs = length (frt S0)"
    and q: "\<forall>j<length (frt S0). fs ! j = (if 0 \<le> int j \<and> int j < ?n - 1
                                         then (frt S0 ! j)\<lparr>page := - 1, next := int j + 1\<rparr>
                                         else frt S0 ! j)"
    by auto
  let ?fs = "fs[nat (?n - 1) := (fs ! nat (?n - 1))\<lparr>page := - 1, next := 0\<rparr>]"
  let ?S2 = "if pol = SecondChance then S0\<lparr>pgt := ?t\<rparr> else S0\<lparr>pgt := ?t, lru := - 1, clock := 0\<rparr>"
  let ?S = "?S2\<lparr>frt := ?fs, listfree := ?n - 1, listoccupied := - 1\<rparr>"
  have w: "wr fs (?n - 1) (\<lambda>e. e\<lparr>page := - 1, next := 0\<rparr>) = Some ?fs"
    using n l lf by (simp add: wr_def)
  have f2: "frt ?S2 = frt S0" "numframes ?S2 = ?n" by simp_all
  have it: "init_tables pol S0 = Some ?S"
    using lp a w n(1) unfolding init_tables_def Let_def f2
    by (simp del: replicate_eq_replicate)
  have nx: "\<forall>j. 0 \<le> j \<and> j < ?N - 1 \<longrightarrow> next (?fs ! j) = int (Suc j)"
    using q l lf' n by (auto simp: nth_list_update)
  have last: "next (?fs ! (?N - 1)) = 0"
    using l lf' n by (simp add: nat_diff_distrib)
  have up: "[0..<?N] = [0..<?N - 1] @ [?N - 1]"
    using n by (metis Suc_diff_1 upt_Suc_append zero_le zero_less_nat_eq)
  have ring: "is_ring ?fs (?n - 1) [0..<?N]"
    using path_upt [OF nx] last n
    by (subst up, simp add: is_ring_snoc nat_diff_distrib int_ops)
  have "state_inv pol ?S [0..<?N] []"
  proof (rule state_invI)
    show "is_ring (frt ?S) (listfree ?S) [0..<?N]" using ring by simp
    show "set ([0..<?N] @ []) = {0..<length (frt ?S)}" using l lf' by simp
  next
    fix p assume "p < length (pgt ?S)" "present (pgt ?S ! p)"
    then show "0 \<le> frame (pgt ?S ! p) \<and> nat (frame (pgt ?S ! p)) \<in> set []
               \<and> page (frt ?S ! nat (frame (pgt ?S ! p))) = int p"
      using t by (simp add: zero_page_def split: if_splits)
  next
    fix p assume "p < length (pgt ?S)"
    then show "\<not> modified (pgt ?S ! p)"
      using t by (simp add: zero_page_def split: if_splits)
  qed (use z n l lf lp in \<open>simp_all split: if_splits\<close>)
  with it show ?thesis by blast
qed

lemma state_inv_free_ring:
  assumes i: "state_inv pol S fl ol"
  shows "free_ring S = map int fl"
  unfolding free_ring_def
  using state_invD(6,7,8) [OF i] by (intro ring_unique) auto

lemma state_inv_occupied_ring:
  assumes i: "state_inv pol S fl ol"
  shows "occupied_ring S = (if uses_ring pol then map int ol else [])"
proof (cases "uses_ring pol")
  case True
  with state_invD(6,7,9) [OF i] have "ring (frt S) (listoccupied S) = map int ol"
    by (intro ring_unique) auto
  with True show ?thesis by (simp add: occupied_ring_def)
next
  case False
  with state_invD(10) [OF i] show ?thesis by (simp add: occupied_ring_def ring_def)
qed

lemma map_nat_int: "map nat (map int xs) = xs" "map (nat \<circ> int) xs = xs"
  by (induction xs) simp_all

lemma state_inv_well_formed:
  assumes i: "state_inv pol S fl ol"
  shows "well_formed pol S"
proof (cases "uses_ring pol")
  case True
  with i show ?thesis
    unfolding well_formed_def state_inv_free_ring [OF i] state_inv_occupied_ring [OF i]
      map_nat_int
    by (simp add: map_nat_int)
next
  case False
  let ?ol = "filter (\<lambda>f. f \<notin> set fl) [0..<length (frt S)]"
  have "set ?ol = set ol" using state_invD(6,7) [OF i] by auto
  then have "state_inv pol S fl ?ol"
    using False state_invD(10) [OF i]
    by (intro state_inv_same_tables [OF i]) simp_all
  with False show ?thesis
    unfolding well_formed_def state_inv_free_ring [OF i] map_nat_int
    by simp
qed

lemma well_formed_state_inv:
  assumes "well_formed pol S"
  obtains fl ol where "state_inv pol S fl ol"
  using assms unfolding well_formed_def by blast

lemma state_inv_ring_partition:
  assumes i: "state_inv pol S fl ol" and u: "uses_ring pol"
  shows "ring_partition S"
proof -
  have "int ` {0..<length (frt S)} = {0..<numframes S}"
  proof (intro set_eqI iffI)
    fix x assume "x \<in> int ` {0..<length (frt S)}"
    then show "x \<in> {0..<numframes S}" using state_invD(4) [OF i] by auto
  next
    fix x assume "x \<in> {0..<numframes S}"
    then have "nat x \<in> {0..<length (frt S)}" "x = int (nat x)"
      using state_invD(4) [OF i] by auto
    then show "x \<in> int ` {0..<length (frt S)}" by (rule rev_image_eqI)
  qed
  then show ?thesis
    using state_invD(6,7) [OF i] u
    unfolding ring_partition_def state_inv_free_ring [OF i] state_inv_occupied_ring [OF i]
    by (auto simp: image_Un [symmetric] simp del: image_Un)
qed

lemma run_inv:
  assumes "state_inv pol S fl ol"
  shows "\<exists>S' fl' ol'. run pol S tr = Some S' \<and> state_inv pol S' fl' ol' \<and> set fl' \<subseteq> set fl"
  using assms
proof (induction tr arbitrary: S fl ol)
  case Nil
  then show ?case by auto
next
  case (Cons a tr)
  obtain draw va op where a: "a = (draw, va, op)" by (cases a) auto
  define fl1 where "fl1 = (if 0 \<le> page_number S va \<and> page_number S va < numpags S
                              \<and> \<not> present (pgt S ! nat (page_number S va))
                           then tl fl else fl)"
  have f1: "set fl1 \<subseteq> set fl" by (cases fl) (auto simp: fl1_def)
  from sim_mmu_inv [OF Cons.prems, of draw va op] obtain S1 pa ol1 where
    s: "sim_mmu pol draw S va op = Some (S1, pa)" and i1: "state_inv pol S1 fl1 ol1"
    unfolding fl1_def by blast
  from Cons.IH [OF i1] obtain S' fl' ol' where
    "run pol S1 tr = Some S'" "state_inv pol S' fl' ol'" "set fl' \<subseteq> set fl1" by blast
  with s f1 a show ?case by (intro exI [of _ S'] exI [of _ fl'] exI [of _ ol']) auto
qed

section \<open>Auxiliary facts for the laws\<close>

lemma well_formed_full:
  assumes w: "well_formed pol S" and f: "listfree S = - 1"
  obtains ol where "state_inv pol S [] ol" "set ol = {0..<nat (numframes S)}"
    "uses_ring pol \<Longrightarrow> map nat (occupied_ring S) = ol"
proof -
  from w obtain fl ol where i: "state_inv pol S fl ol" by (rule well_formed_state_inv)
  from state_inv_free_iff [OF i] f have fl: "fl = []" by simp
  have i': "state_inv pol S [] ol" using i fl by simp
  have "length (frt S) = nat (numframes S)" using state_invD(4) [OF i'] by simp
  then have a: "set ol = {0..<nat (numframes S)}"
    using state_invD(7) [OF i'] by simp
  have o: "uses_ring pol \<Longrightarrow> map nat (occupied_ring S) = ol"
    using state_inv_occupied_ring [OF i'] by (simp add: map_nat_int)
  show ?thesis by (rule that [OF i' a o])
qed

lemma to_unsigned_to_int: "to_unsigned (to_int w) = w"
  by (simp add: to_unsigned_def to_int_def)

lemma to_unsigned_arith:
  "to_unsigned (a * b + c) = to_unsigned a * to_unsigned b + to_unsigned c"
  by (simp add: to_unsigned_def)

lemma run_listfree:
  assumes "run pol S tr = Some S'" and "listfree S = - 1"
  shows "listfree S' = - 1"
  using assms
proof (induction tr arbitrary: S)
  case Nil
  then show ?case by simp
next
  case (Cons a tr)
  obtain draw va op where a: "a = (draw, va, op)" by (cases a) auto
  from Cons.prems(1) a obtain S1 pa where s: "sim_mmu pol draw S va op = Some (S1, pa)"
    and r: "run pol S1 tr = Some S'"
    by (auto split: option.splits)
  from sim_mmu_frame [OF s] Cons.prems(2) have "listfree S1 = - 1" by simp
  from Cons.IH [OF r this] show ?case .
qed

lemma page_number_cong: "pagsz S' = pagsz S \<Longrightarrow> page_number S' va = page_number S va"
  by (simp add: page_number_def)

lemma writes_to_Nil [simp]: "writes_to S p [] = False"
  by (simp add: writes_to_def)

lemma writes_to_Cons [simp]:
  "writes_to S p ((draw, va, op) # tr)
     = (page_number S va = int p \<and> op = CHR ''W'' \<or> writes_to S p tr)"
  by (simp add: writes_to_def)

lemma writes_to_cong: "pagsz S' = pagsz S \<Longrightarrow> writes_to S' p tr = writes_to S p tr"
proof (induction tr)
  case Nil
  show ?case by simp
next
  case (Cons a tr)
  obtain draw va op where a: "a = (draw, va, op)" by (cases a) auto
  from Cons.prems have "page_number S' va = page_number S va" by (rule page_number_cong)
  with Cons show ?case unfolding a by simp
qed

lemma sim_mmu_resident:
  assumes s: "sim_mmu pol draw S va op = Some (S1, pa)"
    and p: "p < length (pgt S)" "int p < numpags S"
    and pr: "present (pgt S ! p)"
  shows "modified (pgt S1 ! p)
           = (modified (pgt S ! p) \<or> page_number S va = int p \<and> op = CHR ''W'')"
proof (cases "0 \<le> page_number S va \<and> page_number S va < numpags S")
  case False
  have "pgt S1 = pgt S" by (subst sim_mmu_illegal(1) [OF s False]) simp
  moreover have "page_number S va \<noteq> int p" using False p by auto
  ultimately show ?thesis by simp
next
  case True
  then have r: "0 \<le> page_number S va" "page_number S va < numpags S" by simp_all
  show ?thesis
  proof (cases "page_number S va = int p")
    case True
    then have "nat (page_number S va) = p" by simp
    with sim_mmu_pages(3) [OF s r] pr True show ?thesis by auto
  next
    case False
    then have ne: "p \<noteq> nat (page_number S va)" using r by auto
    from sim_mmu_pages(4) [OF s r p(1) ne] False show ?thesis by simp
  qed
qed

lemma resident_modified:
  assumes "run pol S tr = Some S'" and "resident_during pol S tr p"
    and "p < length (pgt S)" and "int p < numpags S" and "present (pgt S ! p)"
  shows "present (pgt S' ! p) \<and> length (pgt S') = length (pgt S) \<and> numpags S' = numpags S
         \<and> pagsz S' = pagsz S
         \<and> modified (pgt S' ! p) = (modified (pgt S ! p) \<or> writes_to S p tr)"
  using assms
proof (induction tr arbitrary: S)
  case Nil
  then show ?case by simp
next
  case (Cons a tr)
  obtain draw va op where a: "a = (draw, va, op)" by (cases a) auto
  from Cons.prems(1) obtain S1 pa where s: "sim_mmu pol draw S va op = Some (S1, pa)"
    and r: "run pol S1 tr = Some S'"
    unfolding a by (auto split: option.splits)
  from Cons.prems(2) s have p1: "present (pgt S1 ! p)" and d: "resident_during pol S1 tr p"
    unfolding a by simp_all
  note f = sim_mmu_frame [OF s]
  from f Cons.prems(3,4) have n1: "p < length (pgt S1)" "int p < numpags S1" by simp_all
  note m = sim_mmu_resident [OF s Cons.prems(3,4,5)]
  from f have z: "pagsz S1 = pagsz S" by simp
  from Cons.IH [OF r d n1 p1]
  have "present (pgt S' ! p) \<and> length (pgt S') = length (pgt S1) \<and> numpags S' = numpags S1
         \<and> pagsz S' = pagsz S1
         \<and> modified (pgt S' ! p) = (modified (pgt S1 ! p) \<or> writes_to S p tr)"
    unfolding writes_to_cong [OF z] .
  with m f show ?case unfolding a writes_to_Cons by simp
qed

lemma page_number_update [simp]:
  "page_number (S\<lparr>numpags := x1\<rparr>) va = page_number S va"
  "page_number (S\<lparr>lru := x3\<rparr>) va = page_number S va"
  "page_number (S\<lparr>clock := x4\<rparr>) va = page_number S va"
  "page_number (S\<lparr>numframes := x5\<rparr>) va = page_number S va"
  "page_number (S\<lparr>numrefsread := x9\<rparr>) va = page_number S va"
  "page_number (S\<lparr>numrefswrite := x10\<rparr>) va = page_number S va"
  "page_number (S\<lparr>numpgwriteback := x12\<rparr>) va = page_number S va"
  "page_number (S\<lparr>numillegalrefs := x13\<rparr>) va = page_number S va"
  "page_number (S\<lparr>detailed := x14\<rparr>) va = page_number S va"
  by (simp_all add: page_number_def)

lemma init_tables_three:
  assumes u: "usable S0" and nf: "numframes S0 = 3"
  shows "init_tables pol S0
           = Some ((if pol = SecondChance then S0 else S0\<lparr>lru := - 1, clock := 0\<rparr>)
                    \<lparr>pgt := replicate (nat (numpags S0)) zero_page,
                      frt := [\<lparr>page = - 1, next = 1\<rparr>, \<lparr>page = - 1, next = 2\<rparr>,
                              \<lparr>page = - 1, next = 0\<rparr>],
                      listfree := 2, listoccupied := - 1\<rparr>)"
proof -
  from u nf have l: "length (frt S0) = 3" and lp: "int (length (pgt S0)) = numpags S0"
    by (simp_all add: usable_def)
  from l obtain e0 e1 e2 where f: "frt S0 = [e0, e1, e2]"
    by (auto simp: length_Suc_conv numeral_3_eq_3)
  have il: "init_loop [e0, e1, e2] 3 0
              = Some ([e0\<lparr>page := - 1, next := 1\<rparr>, e1\<lparr>page := - 1, next := 2\<rparr>, e2], 2)"
    by (simp add: init_loop.simps wr_def)
  have d: "drop (nat (numpags S0)) (pgt S0) = []" using lp by simp
  show ?thesis
    using lp nf f il unfolding init_tables_def Let_def d
    by (cases "pol = SecondChance") (simp_all add: wr_def)
qed

lemmas step_defs =
  sim_mmu_def handle_page_fault_def take_free_frame_def link_occupied_def replace_page_def
  count_reference_def rd_def wr_def Let_def

lemma replicate_four:
  assumes "4 \<le> n"
  shows "replicate n x = x # x # x # x # replicate (n - 4) x"
proof -
  from assms obtain m where "n = 4 + m" by (metis le_Suc_ex)
  then show ?thesis by (simp add: numeral_eq_Suc)
qed

lemma init_tables_two:
  assumes u: "usable S0" and nf: "numframes S0 = 2"
  shows "init_tables pol S0
           = Some ((if pol = SecondChance then S0 else S0\<lparr>lru := - 1, clock := 0\<rparr>)
                    \<lparr>pgt := replicate (nat (numpags S0)) zero_page,
                      frt := [\<lparr>page = - 1, next = 1\<rparr>, \<lparr>page = - 1, next = 0\<rparr>],
                      listfree := 1, listoccupied := - 1\<rparr>)"
proof -
  from u nf have l: "length (frt S0) = 2" and lp: "int (length (pgt S0)) = numpags S0"
    by (simp_all add: usable_def)
  from l obtain e0 e1 where f: "frt S0 = [e0, e1]"
    by (auto simp: length_Suc_conv numeral_2_eq_2)
  have il: "init_loop [e0, e1] 2 0 = Some ([e0\<lparr>page := - 1, next := 1\<rparr>, e1], 1)"
    by (simp add: init_loop.simps wr_def)
  have d: "drop (nat (numpags S0)) (pgt S0) = []" using lp by simp
  show ?thesis
    using lp nf f il unfolding init_tables_def Let_def d
    by (cases "pol = SecondChance") (simp_all add: wr_def)
qed

lemma replicate_three:
  assumes "3 \<le> n"
  shows "replicate n x = x # x # x # replicate (n - 3) x"
proof -
  from assms obtain m where "n = 3 + m" by (metis le_Suc_ex)
  then show ?thesis by (simp add: numeral_eq_Suc)
qed

section \<open>The partition of the frames\<close>

text \<open>
  C1. On a usable system, \<^verbatim>\<open>init_tables\<close> followed by any trace of calls of
  \<^verbatim>\<open>sim_mmu\<close> returns a state (the empty trace is the state after initialisation,
  and every prefix of a trace is a trace). In the FIFO and second-chance variants the
  frames of the free list and the frames of the occupied list are then disjoint and
  together are all the frames \<open>0 .. numframes - 1\<close>. The Random and LRU variants never
  link a frame into the occupied list: in them \<^verbatim>\<open>listoccupied\<close> is \<open>- 1\<close> and the
  occupied list is empty after every trace, so a frame that has left the free list is in
  neither list, as the example after the theorem shows. In the four variants the state
  is well-formed: the frames outside the free list hold distinct present pages that
  point back to them, and every present page is in such a frame.
\<close>

theorem ring_partition_invariant:
  assumes "usable S0"
  shows "\<exists>S. simulate pol S0 tr = Some S
           \<and> (if uses_ring pol then ring_partition S
              else listoccupied S = - 1 \<and> occupied_ring S = [])
           \<and> well_formed pol S"
proof -
  from init_tables_inv [OF assms, of pol] obtain S1 where
    i: "init_tables pol S0 = Some S1" "state_inv pol S1 [0..<nat (numframes S0)] []" by blast
  from run_inv [OF i(2), of tr] obtain S fl ol where
    r: "run pol S1 tr = Some S" and j: "state_inv pol S fl ol" by blast
  have "if uses_ring pol then ring_partition S else listoccupied S = - 1 \<and> occupied_ring S = []"
    using state_inv_ring_partition [OF j] state_invD(10) [OF j] state_inv_occupied_ring [OF j]
    by simp
  with i(1) r state_inv_well_formed [OF j] show ?thesis by (simp add: simulate_def)
qed

theorem ring_partition_invariant_witness:
  "usable (fresh_system 4096 4 3)
   \<and> (\<exists>S. simulate FIFO (fresh_system 4096 4 3)
              [(0, 100, CHR ''R''), (0, 5000, CHR ''W''), (0, 9000, CHR ''R''),
               (0, 13000, CHR ''R'')] = Some S
          \<and> ring_partition S \<and> well_formed FIFO S)"
proof -
  have u: "usable (fresh_system 4096 4 3)"
    by (simp add: usable_def fresh_system_def to_unsigned_def)
  from ring_partition_invariant [OF u, of FIFO] u show ?thesis
    by (simp add: uses_ring_def)
qed

theorem ring_partition_random_counterexample:
  "map_option ring_partition
     (simulate Random (fresh_system 4096 2 2) [(0, 100, CHR ''R'')]) = Some False"
  by code_simp

section \<open>Occupying a free frame in the LRU variant\<close>


section \<open>The order of eviction of the FIFO variant\<close>

text \<open>
  C3. FIFO variant, three frames and at least four pages, on a usable system: after
  \<^verbatim>\<open>init_tables\<close>, reads of an address in page 0, one in page 1 and one in page 2
  each fault (the counter of faults goes up by three), fill the three frames with pages
  0, 1 and 2 (page \<open>i\<close> is present in frame \<open>i\<close>, which holds it) and leave no free
  frame. The victim chosen in that state is page 0, and a read of an address in page 3
  then faults and evicts page 0, the first page loaded: pages 1, 2 and 3 are present,
  page 0 is not, and page 3 is in frame 0, the frame page 0 had.
\<close>

theorem fifo_ordering:
  assumes u: "usable S0" and nf: "numframes S0 = 3" and np: "4 \<le> numpags S0"
    and a: "page_number S0 a0 = 0" "page_number S0 a1 = 1" "page_number S0 a2 = 2"
      "page_number S0 a3 = 3"
  shows "\<exists>S3 S4 pa.
           simulate FIFO S0 [(da, a0, CHR ''R''), (db, a1, CHR ''R''), (dc, a2, CHR ''R'')]
             = Some S3
           \<and> listfree S3 = - 1 \<and> map page (frt S3) = [0, 1, 2]
           \<and> present (pgt S3 ! 0) \<and> present (pgt S3 ! 1) \<and> present (pgt S3 ! 2)
           \<and> \<not> present (pgt S3 ! 3)
           \<and> frame (pgt S3 ! 0) = 0 \<and> frame (pgt S3 ! 1) = 1 \<and> frame (pgt S3 ! 2) = 2
           \<and> numpagefaults S3 = numpagefaults S0 + 3
           \<and> choose_page_to_be_replaced FIFO dd S3 = Some (S3\<lparr>listoccupied := 0\<rparr>, 0)
           \<and> sim_mmu FIFO dd S3 a3 CHR ''R'' = Some (S4, pa)
           \<and> \<not> present (pgt S4 ! 0) \<and> present (pgt S4 ! 1) \<and> present (pgt S4 ! 2)
           \<and> present (pgt S4 ! 3) \<and> frame (pgt S4 ! 3) = 0
           \<and> map page (frt S4) = [3, 1, 2]
           \<and> numpagefaults S4 = numpagefaults S0 + 4"
proof -
  from u have z: "to_unsigned (pagsz S0) \<noteq> 0" by (simp add: usable_def)
  from np have "4 \<le> nat (numpags S0)" by simp
  note rep = replicate_four [OF this, of zero_page]
  have n: "\<not> numpags S0 \<le> 0" "\<not> numpags S0 \<le> 1" "\<not> numpags S0 \<le> 2" "\<not> numpags S0 \<le> 3"
    using np by simp_all
  show ?thesis
    unfolding simulate_def init_tables_three [OF u nf] rep
    using z a n
    by (simp add: step_defs zero_page_def)
qed

theorem fifo_ordering_witness:
  "usable (fresh_system 4096 4 3) \<and> numframes (fresh_system 4096 4 3) = 3
   \<and> 4 \<le> numpags (fresh_system 4096 4 3)
   \<and> page_number (fresh_system 4096 4 3) 0 = 0
   \<and> page_number (fresh_system 4096 4 3) 4096 = 1
   \<and> page_number (fresh_system 4096 4 3) 8192 = 2
   \<and> page_number (fresh_system 4096 4 3) 12288 = 3
   \<and> (\<exists>S3 S4 pa.
           simulate FIFO (fresh_system 4096 4 3)
             [(0, 0, CHR ''R''), (0, 4096, CHR ''R''), (0, 8192, CHR ''R'')] = Some S3
           \<and> listfree S3 = - 1 \<and> map page (frt S3) = [0, 1, 2]
           \<and> present (pgt S3 ! 0) \<and> present (pgt S3 ! 1) \<and> present (pgt S3 ! 2)
           \<and> \<not> present (pgt S3 ! 3)
           \<and> frame (pgt S3 ! 0) = 0 \<and> frame (pgt S3 ! 1) = 1 \<and> frame (pgt S3 ! 2) = 2
           \<and> numpagefaults S3 = numpagefaults (fresh_system 4096 4 3) + 3
           \<and> choose_page_to_be_replaced FIFO 0 S3 = Some (S3\<lparr>listoccupied := 0\<rparr>, 0)
           \<and> sim_mmu FIFO 0 S3 12288 CHR ''R'' = Some (S4, pa)
           \<and> \<not> present (pgt S4 ! 0) \<and> present (pgt S4 ! 1) \<and> present (pgt S4 ! 2)
           \<and> present (pgt S4 ! 3) \<and> frame (pgt S4 ! 3) = 0
           \<and> map page (frt S4) = [3, 1, 2]
           \<and> numpagefaults S4 = numpagefaults (fresh_system 4096 4 3) + 4)"
proof -
  have h: "usable (fresh_system 4096 4 3)" "numframes (fresh_system 4096 4 3) = 3"
    "4 \<le> numpags (fresh_system 4096 4 3)"
    "page_number (fresh_system 4096 4 3) 0 = 0"
    "page_number (fresh_system 4096 4 3) 4096 = 1"
    "page_number (fresh_system 4096 4 3) 8192 = 2"
    "page_number (fresh_system 4096 4 3) 12288 = 3"
    by code_simp+
  note t = fifo_ordering [OF h, where da = 0 and db = 0 and dc = 0 and dd = 0]
  show ?thesis by (intro conjI h t)
qed

section \<open>The walk of the second-chance variant\<close>

text \<open>
  C4. Second-chance variant. Let \<open>os\<close> be the occupied list, a non-empty circular list
  of distinct frames anchored at \<^verbatim>\<open>listoccupied\<close> (oldest frame first), each frame
  holding a page of the page table; it is then the list \<open>occupied_ring\<close> reads off the
  frame table. On such a state \<^verbatim>\<open>choose_page_to_be_replaced\<close> returns: the walk
  pardons the \<open>k\<close> frames at the head of the list, whose pages all have the referenced
  bit set, where \<open>k\<close> is at most the length of the list (one full turn), and returns the
  page of the next frame of the circle, whose bit is clear in the state returned (at
  \<open>k = length os\<close> that is the first frame again, pardoned on the way). The pages of the
  pardoned frames have their bit cleared, every other page descriptor and the frame
  table are as before. In a well-formed state with no free frame, which is the state in
  which the fault handler calls the function, the list holds all the frames, \<open>k\<close> is
  the number of frames before the first one whose page has a clear bit, and the state
  returned is well-formed.
\<close>

theorem second_chance_terminates:
  assumes r: "is_ring (frt S) (listoccupied S) os" and ne: "os \<noteq> []" and d: "distinct os"
    and rng: "\<forall>f\<in>set os. f < length (frt S) \<and> 0 \<le> page (frt S ! f)
                         \<and> page (frt S ! f) < int (length (pgt S))"
  shows "\<exists>S' k. choose_page_to_be_replaced SecondChance draw S
                   = Some (S', page (frt S ! (os ! (k mod length os))))
           \<and> os = map nat (occupied_ring S)
           \<and> k \<le> length os \<and> (\<forall>j<k. frame_referenced S (os ! j))
           \<and> \<not> referenced (pgt S' ! resident S (os ! (k mod length os)))
           \<and> frt S' = frt S \<and> length (pgt S') = length (pgt S)
           \<and> (\<forall>q<length (pgt S).
                 pgt S' ! q = (if q \<in> resident S ` set (take k os)
                               then (pgt S ! q)\<lparr>referenced := False\<rparr> else pgt S ! q))
           \<and> (well_formed SecondChance S \<and> listfree S = - 1 \<longrightarrow>
                 set os = {0..<nat (numframes S)}
                 \<and> k = length (takeWhile (frame_referenced S) os)
                 \<and> well_formed SecondChance S')"
proof -
  have u: "uses_ring SecondChance" by (simp add: uses_ring_def)
  have sub: "set os \<subseteq> {0..<length (frt S)}" using rng by auto
  have "occupied_ring S = map int os"
    unfolding occupied_ring_def by (rule ring_unique [OF r d sub])
  then have os: "os = map nat (occupied_ring S)" by (simp add: map_nat_int)
  show ?thesis
  proof (cases "well_formed SecondChance S \<and> listfree S = - 1")
    case False
    have rng': "\<forall>f\<in>set os. f < length (frt S) \<and> 0 \<le> page (frt S ! f)
                          \<and> nat (page (frt S ! f)) < length (pgt S)"
      using rng by auto
    let ?R = "{q \<in> resident S ` set os. referenced (pgt S ! q)}"
    from second_chance_walk_returns [OF r ne rng'] obtain k t a where
      H: "second_chance_walk S
            = Some (S\<lparr>pgt := t, listoccupied := a\<rparr>, page (frt S ! (os ! (k mod length os))))
          \<and> k \<le> card ?R
          \<and> (\<forall>j<k. frame_referenced S (os ! j))
          \<and> \<not> referenced (t ! resident S (os ! (k mod length os)))
          \<and> length t = length (pgt S)
          \<and> (\<forall>q<length (pgt S).
                t ! q = (if q \<in> resident S ` set (take k os)
                         then (pgt S ! q)\<lparr>referenced := False\<rparr> else pgt S ! q))"
      by blast
    have "card ?R \<le> card (resident S ` set os)" by (intro card_mono) auto
    also have "\<dots> \<le> card (set os)" by (intro card_image_le) simp
    also have "\<dots> \<le> length os" by (rule card_length)
    finally have c: "card ?R \<le> length os" .
    let ?S' = "S\<lparr>pgt := t, listoccupied := a\<rparr>"
    have pt: "pgt ?S' = t" "frt ?S' = frt S" by simp_all
    show ?thesis
    proof (intro exI [of _ ?S'] exI [of _ k] conjI)
      show "choose_page_to_be_replaced SecondChance draw S
              = Some (?S', page (frt S ! (os ! (k mod length os))))"
        using H [THEN conjunct1] by simp
      show "os = map nat (occupied_ring S)" by (rule os)
      show "k \<le> length os" using H [THEN conjunct2, THEN conjunct1] c by simp
      show "\<forall>j<k. frame_referenced S (os ! j)"
        by (rule H [THEN conjunct2, THEN conjunct2, THEN conjunct1])
      show "\<not> referenced (pgt ?S' ! resident S (os ! (k mod length os)))"
        unfolding pt
        by (rule H [THEN conjunct2, THEN conjunct2, THEN conjunct2, THEN conjunct1])
      show "frt ?S' = frt S" by simp
      show "length (pgt ?S') = length (pgt S)" unfolding pt
        by (rule H [THEN conjunct2, THEN conjunct2, THEN conjunct2, THEN conjunct2,
                    THEN conjunct1])
      show "\<forall>q<length (pgt S).
              pgt ?S' ! q = (if q \<in> resident S ` set (take k os)
                             then (pgt S ! q)\<lparr>referenced := False\<rparr> else pgt S ! q)"
        unfolding pt
        by (rule H [THEN conjunct2, THEN conjunct2, THEN conjunct2, THEN conjunct2,
                    THEN conjunct2])
      show "well_formed SecondChance S \<and> listfree S = - 1 \<longrightarrow>
              set os = {0..<nat (numframes S)}
              \<and> k = length (takeWhile (frame_referenced S) os)
              \<and> well_formed SecondChance ?S'"
        using False by blast
    qed
  next
    case True
    then have w: "well_formed SecondChance S" and f: "listfree S = - 1" by simp_all
    from well_formed_full [OF w f] u obtain ol where i0: "state_inv SecondChance S [] ol"
      and all0: "set ol = {0..<nat (numframes S)}" and os0: "map nat (occupied_ring S) = ol"
      by blast
    have oo: "ol = os" using os os0 by simp
    note i = i0 [unfolded oo] and all = all0 [unfolded oo]
    let ?k = "length (takeWhile (frame_referenced S) os)"
    let ?f = "os ! (?k mod length os)"
    from second_chance_walk_inv [OF i] obtain t a where
      c: "second_chance_walk S = Some (S\<lparr>pgt := t, listoccupied := a\<rparr>, page (frt S ! ?f))"
      and j: "state_inv SecondChance (S\<lparr>pgt := t, listoccupied := a\<rparr>) [] (rotate ?k os)"
      and l: "length t = length (pgt S)"
      and q: "\<forall>q<length (pgt S).
                t ! q = (if q \<in> resident S ` set (take ?k os)
                         then (pgt S ! q)\<lparr>referenced := False\<rparr> else pgt S ! q)"
      by blast
    have kl: "?k \<le> length os" by (rule length_takeWhile_le)
    have fo: "?f \<in> set os" using ne by simp
    have rf: "resident S ?f < length (pgt S)"
      using state_inv_frame(3) [OF i fo] by (simp add: resident_def)
    have nr: "\<not> referenced (t ! resident S ?f)"
    proof (cases "?k = length os")
      case True
      with ne have "?f = os ! 0" by simp
      with ne True have "?f \<in> set (take ?k os)" by (simp add: hd_conv_nth [symmetric])
      with q rf show ?thesis by simp
    next
      case False
      with kl have k: "?k < length os" by simp
      then have fk: "?f = os ! ?k" by simp
      have "\<not> frame_referenced S (os ! ?k)" using k by (rule nth_length_takeWhile)
      moreover have "resident S ?f \<notin> resident S ` set (take ?k os)"
      proof
        assume "resident S ?f \<in> resident S ` set (take ?k os)"
        then obtain y where y: "y \<in> set (take ?k os)" "resident S ?f = resident S y" by auto
        from y(1) have yo: "y \<in> set os" by (rule in_set_takeD)
        from state_inv_resident_inj [OF i fo yo y(2)] y(1) fk
        have "os ! ?k \<in> set (take ?k os)" by simp
        then obtain m where "m < ?k" "os ! m = os ! ?k"
          using k by (auto simp: in_set_conv_nth)
        with d k show False by (auto simp: nth_eq_iff_index_eq)
      qed
      ultimately show ?thesis using q rf fk by (simp add: frame_referenced_def)
    qed
    have fr: "\<forall>j<?k. frame_referenced S (os ! j)"
    proof (intro allI impI)
      fix j assume j: "j < ?k"
      then have "takeWhile (frame_referenced S) os ! j = os ! j" by (rule takeWhile_nth)
      moreover have "takeWhile (frame_referenced S) os ! j
                       \<in> set (takeWhile (frame_referenced S) os)"
        using j by simp
      ultimately show "frame_referenced S (os ! j)" by (auto dest: set_takeWhileD)
    qed
    let ?S' = "S\<lparr>pgt := t, listoccupied := a\<rparr>"
    have pt: "pgt ?S' = t" by simp
    show ?thesis
    proof (intro exI [of _ ?S'] exI [of _ ?k] conjI impI)
      show "choose_page_to_be_replaced SecondChance draw S = Some (?S', page (frt S ! ?f))"
        using c by simp
      show "os = map nat (occupied_ring S)" by (rule os)
      show "?k \<le> length os" by (rule kl)
      show "\<forall>j<?k. frame_referenced S (os ! j)" by (rule fr)
      show "\<not> referenced (pgt ?S' ! resident S ?f)" unfolding pt by (rule nr)
      show "frt ?S' = frt S" by simp
      show "length (pgt ?S') = length (pgt S)" unfolding pt by (rule l)
      show "\<forall>q<length (pgt S).
              pgt ?S' ! q = (if q \<in> resident S ` set (take ?k os)
                             then (pgt S ! q)\<lparr>referenced := False\<rparr> else pgt S ! q)"
        unfolding pt by (rule q)
      show "set os = {0..<nat (numframes S)}" by (rule all)
      show "?k = length (takeWhile (frame_referenced S) os)" ..
      show "well_formed SecondChance ?S'" by (rule state_inv_well_formed [OF j])
    qed
  qed
qed

theorem second_chance_terminates_witness:
  "is_ring (frt (state_after SecondChance [(0, 0, CHR ''R''), (0, 4096, CHR ''W'')])) (listoccupied (state_after SecondChance [(0, 0, CHR ''R''), (0, 4096, CHR ''W'')])) [0, 1]
   \<and> [0, 1::nat] \<noteq> [] \<and> distinct [0, 1::nat]
   \<and> 0 < length (frt (state_after SecondChance [(0, 0, CHR ''R''), (0, 4096, CHR ''W'')])) \<and> 0 \<le> page (frt (state_after SecondChance [(0, 0, CHR ''R''), (0, 4096, CHR ''W'')]) ! 0)
   \<and> page (frt (state_after SecondChance [(0, 0, CHR ''R''), (0, 4096, CHR ''W'')]) ! 0) < int (length (pgt (state_after SecondChance [(0, 0, CHR ''R''), (0, 4096, CHR ''W'')])))
   \<and> 1 < length (frt (state_after SecondChance [(0, 0, CHR ''R''), (0, 4096, CHR ''W'')])) \<and> 0 \<le> page (frt (state_after SecondChance [(0, 0, CHR ''R''), (0, 4096, CHR ''W'')]) ! 1)
   \<and> page (frt (state_after SecondChance [(0, 0, CHR ''R''), (0, 4096, CHR ''W'')]) ! 1) < int (length (pgt (state_after SecondChance [(0, 0, CHR ''R''), (0, 4096, CHR ''W'')])))
   \<and> well_formed SecondChance (state_after SecondChance [(0, 0, CHR ''R''), (0, 4096, CHR ''W'')]) \<and> listfree (state_after SecondChance [(0, 0, CHR ''R''), (0, 4096, CHR ''W'')]) = - 1
   \<and> (\<exists>S' k. choose_page_to_be_replaced SecondChance 0 (state_after SecondChance [(0, 0, CHR ''R''), (0, 4096, CHR ''W'')])
                   = Some (S', page (frt (state_after SecondChance [(0, 0, CHR ''R''), (0, 4096, CHR ''W'')]) ! ([0, 1] ! (k mod length [0, 1::nat]))))
           \<and> [0, 1] = map nat (occupied_ring (state_after SecondChance [(0, 0, CHR ''R''), (0, 4096, CHR ''W'')]))
           \<and> k \<le> length [0, 1::nat] \<and> (\<forall>j<k. frame_referenced (state_after SecondChance [(0, 0, CHR ''R''), (0, 4096, CHR ''W'')]) ([0, 1] ! j))
           \<and> \<not> referenced (pgt S' ! resident (state_after SecondChance [(0, 0, CHR ''R''), (0, 4096, CHR ''W'')]) ([0, 1] ! (k mod length [0, 1::nat])))
           \<and> frt S' = frt (state_after SecondChance [(0, 0, CHR ''R''), (0, 4096, CHR ''W'')]) \<and> length (pgt S') = length (pgt (state_after SecondChance [(0, 0, CHR ''R''), (0, 4096, CHR ''W'')]))
           \<and> (\<forall>q<length (pgt (state_after SecondChance [(0, 0, CHR ''R''), (0, 4096, CHR ''W'')])).
                 pgt S' ! q = (if q \<in> resident (state_after SecondChance [(0, 0, CHR ''R''), (0, 4096, CHR ''W'')]) ` set (take k [0, 1])
                               then (pgt (state_after SecondChance [(0, 0, CHR ''R''), (0, 4096, CHR ''W'')]) ! q)\<lparr>referenced := False\<rparr> else pgt (state_after SecondChance [(0, 0, CHR ''R''), (0, 4096, CHR ''W'')]) ! q))
           \<and> (well_formed SecondChance (state_after SecondChance [(0, 0, CHR ''R''), (0, 4096, CHR ''W'')]) \<and> listfree (state_after SecondChance [(0, 0, CHR ''R''), (0, 4096, CHR ''W'')]) = - 1 \<longrightarrow>
                 set [0, 1] = {0..<nat (numframes (state_after SecondChance [(0, 0, CHR ''R''), (0, 4096, CHR ''W'')]))}
                 \<and> k = length (takeWhile (frame_referenced (state_after SecondChance [(0, 0, CHR ''R''), (0, 4096, CHR ''W'')])) [0, 1])
                 \<and> well_formed SecondChance S'))"
proof -
  have h: "is_ring (frt (state_after SecondChance [(0, 0, CHR ''R''), (0, 4096, CHR ''W'')])) (listoccupied (state_after SecondChance [(0, 0, CHR ''R''), (0, 4096, CHR ''W'')])) [0, 1]"
    "[0, 1::nat] \<noteq> []" "distinct [0, 1::nat]"
    "\<forall>f\<in>set [0, 1]. f < length (frt (state_after SecondChance [(0, 0, CHR ''R''), (0, 4096, CHR ''W'')])) \<and> 0 \<le> page (frt (state_after SecondChance [(0, 0, CHR ''R''), (0, 4096, CHR ''W'')]) ! f)
                         \<and> page (frt (state_after SecondChance [(0, 0, CHR ''R''), (0, 4096, CHR ''W'')]) ! f) < int (length (pgt (state_after SecondChance [(0, 0, CHR ''R''), (0, 4096, CHR ''W'')])))"
    by code_simp+
  have e: "0 < length (frt (state_after SecondChance [(0, 0, CHR ''R''), (0, 4096, CHR ''W'')]))" "0 \<le> page (frt (state_after SecondChance [(0, 0, CHR ''R''), (0, 4096, CHR ''W'')]) ! 0)"
    "page (frt (state_after SecondChance [(0, 0, CHR ''R''), (0, 4096, CHR ''W'')]) ! 0) < int (length (pgt (state_after SecondChance [(0, 0, CHR ''R''), (0, 4096, CHR ''W'')])))"
    "1 < length (frt (state_after SecondChance [(0, 0, CHR ''R''), (0, 4096, CHR ''W'')]))" "0 \<le> page (frt (state_after SecondChance [(0, 0, CHR ''R''), (0, 4096, CHR ''W'')]) ! 1)"
    "page (frt (state_after SecondChance [(0, 0, CHR ''R''), (0, 4096, CHR ''W'')]) ! 1) < int (length (pgt (state_after SecondChance [(0, 0, CHR ''R''), (0, 4096, CHR ''W'')])))"
    by code_simp+
  have w: "well_formed SecondChance (state_after SecondChance [(0, 0, CHR ''R''), (0, 4096, CHR ''W'')])" "listfree (state_after SecondChance [(0, 0, CHR ''R''), (0, 4096, CHR ''W'')]) = - 1"
    by code_simp+
  note t = second_chance_terminates [OF h, of 0]
  show ?thesis by (intro conjI h(1,2,3) e w t)
qed

section \<open>The pardon of the second-chance variant\<close>

text \<open>
  C5. Second-chance variant, two frames and at least three pages, on a usable system:
  after \<^verbatim>\<open>init_tables\<close> and accesses to page 0, to page 1 and to page 0 again (reads
  or writes), the referenced bit of page 0 is set, and so is the bit of page 1, because
  the access that loaded page 1 set it (\<^verbatim>\<open>occupy_free_frame\<close> loads a page with the
  bit set and \<^verbatim>\<open>reference_page\<close> sets it at every access). The walk therefore pardons
  both pages, clears both bits and comes back to page 0, the first loaded: the victim is
  page 0, and the access to page 2 that follows evicts page 0 and leaves page 1 in its
  frame.
\<close>

theorem second_chance_pardon:
  assumes u: "usable S0" and nf: "numframes S0 = 2" and np: "3 \<le> numpags S0"
    and a: "page_number S0 a0 = 0" "page_number S0 a1 = 1" "page_number S0 a2 = 0"
      "page_number S0 a3 = 2"
  shows "\<exists>S3 S3' S4 pa.
           simulate SecondChance S0 [(da, a0, opa), (db, a1, opb), (dc, a2, opc)] = Some S3
           \<and> referenced (pgt S3 ! 0) \<and> referenced (pgt S3 ! 1)
           \<and> choose_page_to_be_replaced SecondChance dd S3 = Some (S3', 0)
           \<and> \<not> referenced (pgt S3' ! 0) \<and> \<not> referenced (pgt S3' ! 1)
           \<and> sim_mmu SecondChance dd S3 a3 opd = Some (S4, pa)
           \<and> \<not> present (pgt S4 ! 0) \<and> present (pgt S4 ! 1) \<and> present (pgt S4 ! 2)
           \<and> map page (frt S4) = [2, 1]"
proof -
  from u have z: "to_unsigned (pagsz S0) \<noteq> 0" by (simp add: usable_def)
  from np have "3 \<le> nat (numpags S0)" by simp
  note rep = replicate_three [OF this, of zero_page]
  have n: "\<not> numpags S0 \<le> 0" "\<not> numpags S0 \<le> 1" "\<not> numpags S0 \<le> 2"
    using np by simp_all
  show ?thesis
    unfolding simulate_def init_tables_two [OF u nf] rep
    using z a n
    by (simp add: step_defs zero_page_def second_chance_walk.simps)
qed

theorem second_chance_pardon_witness:
  "usable (fresh_system 4096 3 2) \<and> numframes (fresh_system 4096 3 2) = 2 \<and> 3 \<le> numpags (fresh_system 4096 3 2)
   \<and> page_number (fresh_system 4096 3 2) 0 = 0 \<and> page_number (fresh_system 4096 3 2) 4096 = 1
   \<and> page_number (fresh_system 4096 3 2) 100 = 0 \<and> page_number (fresh_system 4096 3 2) 8192 = 2
   \<and> (\<exists>S3 S3' S4 pa.
           simulate SecondChance (fresh_system 4096 3 2)
             [(0, 0, CHR ''R''), (0, 4096, CHR ''R''), (0, 100, CHR ''R'')] = Some S3
           \<and> referenced (pgt S3 ! 0) \<and> referenced (pgt S3 ! 1)
           \<and> choose_page_to_be_replaced SecondChance 0 S3 = Some (S3', 0)
           \<and> \<not> referenced (pgt S3' ! 0) \<and> \<not> referenced (pgt S3' ! 1)
           \<and> sim_mmu SecondChance 0 S3 8192 CHR ''R'' = Some (S4, pa)
           \<and> \<not> present (pgt S4 ! 0) \<and> present (pgt S4 ! 1) \<and> present (pgt S4 ! 2)
           \<and> map page (frt S4) = [2, 1])"
proof -
  have h: "usable (fresh_system 4096 3 2)" "numframes (fresh_system 4096 3 2) = 2" "3 \<le> numpags (fresh_system 4096 3 2)"
    "page_number (fresh_system 4096 3 2) 0 = 0" "page_number (fresh_system 4096 3 2) 4096 = 1"
    "page_number (fresh_system 4096 3 2) 100 = 0" "page_number (fresh_system 4096 3 2) 8192 = 2"
    by code_simp+
  note t = second_chance_pardon [OF h, where da = 0 and db = 0 and dc = 0 and dd = 0
      and opa = "CHR ''R''" and opb = "CHR ''R''" and opc = "CHR ''R''" and opd = "CHR ''R''"]
  show ?thesis by (intro conjI h t)
qed

theorem second_chance_pardon_counterexample:
  "map_option (map present \<circ> pgt)
     (simulate SecondChance (fresh_system 4096 3 2)
        [(0, 0, CHR ''R''), (0, 4096, CHR ''R''), (0, 0, CHR ''R''), (0, 8192, CHR ''R'')])
     = Some [False, True, True]"
  by code_simp

section \<open>The victim of the LRU variant\<close>

text \<open>
  C6. LRU variant, in a state where every frame of the frame table holds a page of the
  page table (all frames occupied): \<^verbatim>\<open>choose_page_to_be_replaced\<close> returns, with the
  state as it was, the page held by a frame \<open>m\<close> whose page has the least timestamp
  over all the frames; every frame below \<open>m\<close> holds a page with a strictly greater
  timestamp, so among the frames with the least timestamp \<open>m\<close> is the lowest. In a
  well-formed state with no free frame, which is the state in which the fault handler
  calls the function, that page is present.
\<close>

theorem lru_victim:
  assumes nf: "0 < numframes S" "int (length (frt S)) = numframes S"
    and rng: "\<forall>f<length (frt S). 0 \<le> page (frt S ! f)
                                 \<and> page (frt S ! f) < int (length (pgt S))"
  shows "\<exists>m<nat (numframes S).
           choose_page_to_be_replaced LRU draw S = Some (S, page (frt S ! m))
           \<and> (\<forall>x<nat (numframes S). frame_timestamp S m \<le> frame_timestamp S x)
           \<and> (\<forall>x<m. frame_timestamp S m < frame_timestamp S x)
           \<and> (well_formed LRU S \<and> listfree S = - 1 \<longrightarrow> present (pgt S ! resident S m))"
proof -
  let ?n = "length (frt S)"
  have n: "?n = nat (numframes S)" using nf(2) by simp
  have rng': "\<forall>x<?n. 0 \<le> page (frt S ! x) \<and> nat (page (frt S ! x)) < length (pgt S)"
    using rng by auto
  have pos: "0 < ?n" using nf by auto
  from lru_scan_min [of S ?n 0 "- 1", OF _ _ rng' _ pos] nf(2)
  obtain m where m: "m < ?n" "lru_scan S 0 (- 1) = Some (int m)"
    "\<forall>x<?n. frame_timestamp S m \<le> frame_timestamp S x"
    "\<forall>x<m. frame_timestamp S m < frame_timestamp S x"
    by auto
  then have c: "choose_page_to_be_replaced LRU draw S = Some (S, page (frt S ! m))"
    by simp
  have p: "well_formed LRU S \<and> listfree S = - 1 \<longrightarrow> present (pgt S ! resident S m)"
  proof
    assume "well_formed LRU S \<and> listfree S = - 1"
    then have w: "well_formed LRU S" and f: "listfree S = - 1" by simp_all
    from well_formed_full [OF w f] obtain ol where i: "state_inv LRU S [] ol"
      and all: "set ol = {0..<nat (numframes S)}" by blast
    from m(1) all n have "m \<in> set ol" by simp
    from state_inv_frame(4) [OF i this] show "present (pgt S ! resident S m)"
      by (simp add: resident_def)
  qed
  from m(1) c m(3,4) p show ?thesis unfolding n by blast
qed

theorem lru_victim_witness:
  "0 < numframes (state_after LRU [(0, 0, CHR ''R''), (0, 4096, CHR ''W'')])
   \<and> int (length (frt (state_after LRU [(0, 0, CHR ''R''), (0, 4096, CHR ''W'')]))) = numframes (state_after LRU [(0, 0, CHR ''R''), (0, 4096, CHR ''W'')])
   \<and> length (frt (state_after LRU [(0, 0, CHR ''R''), (0, 4096, CHR ''W'')])) = 2
   \<and> 0 \<le> page (frt (state_after LRU [(0, 0, CHR ''R''), (0, 4096, CHR ''W'')]) ! 0) \<and> page (frt (state_after LRU [(0, 0, CHR ''R''), (0, 4096, CHR ''W'')]) ! 0) < int (length (pgt (state_after LRU [(0, 0, CHR ''R''), (0, 4096, CHR ''W'')])))
   \<and> 0 \<le> page (frt (state_after LRU [(0, 0, CHR ''R''), (0, 4096, CHR ''W'')]) ! 1) \<and> page (frt (state_after LRU [(0, 0, CHR ''R''), (0, 4096, CHR ''W'')]) ! 1) < int (length (pgt (state_after LRU [(0, 0, CHR ''R''), (0, 4096, CHR ''W'')])))
   \<and> well_formed LRU (state_after LRU [(0, 0, CHR ''R''), (0, 4096, CHR ''W'')]) \<and> listfree (state_after LRU [(0, 0, CHR ''R''), (0, 4096, CHR ''W'')]) = - 1
   \<and> (\<exists>m<nat (numframes (state_after LRU [(0, 0, CHR ''R''), (0, 4096, CHR ''W'')])).
           choose_page_to_be_replaced LRU 0 (state_after LRU [(0, 0, CHR ''R''), (0, 4096, CHR ''W'')]) = Some ((state_after LRU [(0, 0, CHR ''R''), (0, 4096, CHR ''W'')]), page (frt (state_after LRU [(0, 0, CHR ''R''), (0, 4096, CHR ''W'')]) ! m))
           \<and> (\<forall>x<nat (numframes (state_after LRU [(0, 0, CHR ''R''), (0, 4096, CHR ''W'')])). frame_timestamp (state_after LRU [(0, 0, CHR ''R''), (0, 4096, CHR ''W'')]) m \<le> frame_timestamp (state_after LRU [(0, 0, CHR ''R''), (0, 4096, CHR ''W'')]) x)
           \<and> (\<forall>x<m. frame_timestamp (state_after LRU [(0, 0, CHR ''R''), (0, 4096, CHR ''W'')]) m < frame_timestamp (state_after LRU [(0, 0, CHR ''R''), (0, 4096, CHR ''W'')]) x)
           \<and> (well_formed LRU (state_after LRU [(0, 0, CHR ''R''), (0, 4096, CHR ''W'')]) \<and> listfree (state_after LRU [(0, 0, CHR ''R''), (0, 4096, CHR ''W'')]) = - 1 \<longrightarrow> present (pgt (state_after LRU [(0, 0, CHR ''R''), (0, 4096, CHR ''W'')]) ! resident (state_after LRU [(0, 0, CHR ''R''), (0, 4096, CHR ''W'')]) m)))"
proof -
  have h: "0 < numframes (state_after LRU [(0, 0, CHR ''R''), (0, 4096, CHR ''W'')])"
    "int (length (frt (state_after LRU [(0, 0, CHR ''R''), (0, 4096, CHR ''W'')]))) = numframes (state_after LRU [(0, 0, CHR ''R''), (0, 4096, CHR ''W'')])"
    "\<forall>f<length (frt (state_after LRU [(0, 0, CHR ''R''), (0, 4096, CHR ''W'')])). 0 \<le> page (frt (state_after LRU [(0, 0, CHR ''R''), (0, 4096, CHR ''W'')]) ! f)
                                 \<and> page (frt (state_after LRU [(0, 0, CHR ''R''), (0, 4096, CHR ''W'')]) ! f) < int (length (pgt (state_after LRU [(0, 0, CHR ''R''), (0, 4096, CHR ''W'')])))"
    by code_simp+
  have e: "length (frt (state_after LRU [(0, 0, CHR ''R''), (0, 4096, CHR ''W'')])) = 2"
    "0 \<le> page (frt (state_after LRU [(0, 0, CHR ''R''), (0, 4096, CHR ''W'')]) ! 0)" "page (frt (state_after LRU [(0, 0, CHR ''R''), (0, 4096, CHR ''W'')]) ! 0) < int (length (pgt (state_after LRU [(0, 0, CHR ''R''), (0, 4096, CHR ''W'')])))"
    "0 \<le> page (frt (state_after LRU [(0, 0, CHR ''R''), (0, 4096, CHR ''W'')]) ! 1)" "page (frt (state_after LRU [(0, 0, CHR ''R''), (0, 4096, CHR ''W'')]) ! 1) < int (length (pgt (state_after LRU [(0, 0, CHR ''R''), (0, 4096, CHR ''W'')])))"
    by code_simp+
  have w: "well_formed LRU (state_after LRU [(0, 0, CHR ''R''), (0, 4096, CHR ''W'')])" "listfree (state_after LRU [(0, 0, CHR ''R''), (0, 4096, CHR ''W'')]) = - 1"
    by code_simp+
  note t = lru_victim [OF h, of 0]
  show ?thesis by (intro conjI h(1,2) e w t)
qed

section \<open>Write-backs\<close>

text \<open>
  C7. When \<^verbatim>\<open>replace_page\<close> returns, the counter of write-backs has gone up by one
  if the flag \<^verbatim>\<open>modified\<close> of the victim was set when it was called, and is
  unchanged otherwise. Over a trace, in any variant: let page \<open>p\<close> be absent in a
  well-formed state, let an access \<open>opa\<close> to \<open>p\<close> fault it in, let \<open>p\<close> stay present
  along the accesses \<open>tr\<close>, and let the access after them evict \<open>p\<close>. Then that last
  access counts one write-back if \<open>p\<close> was written while it was loaded (\<open>opa\<close> is a
  write, or \<open>tr\<close> writes to \<open>p\<close>), and none if it never was.
\<close>

theorem write_back_law:
  "(replace_page S victim newpage = Some S' \<longrightarrow>
      numpgwriteback S' = numpgwriteback S + (if modified (pgt S ! nat victim) then 1 else 0))
   \<and> (well_formed pol S0 \<and> int p < numpags S0 \<and> \<not> present (pgt S0 ! p)
        \<and> page_number S0 va = int p
        \<and> sim_mmu pol da S0 va opa = Some (S1, pa)
        \<and> run pol S1 tr = Some S2 \<and> resident_during pol S1 tr p
        \<and> sim_mmu pol dd S2 vd opd = Some (S3, pd) \<and> \<not> present (pgt S3 ! p)
      \<longrightarrow> numpgwriteback S3
            = numpgwriteback S2 + (if opa = CHR ''W'' \<or> writes_to S0 p tr then 1 else 0))"
proof (intro conjI impI)
  assume "replace_page S victim newpage = Some S'"
  from replace_page_frame [OF this] obtain fs where
    "S' = S\<lparr>pgt := (pgt S)[nat victim := (pgt S ! nat victim)\<lparr>present := False\<rparr>,
                          nat newpage := ((pgt S)[nat victim := (pgt S ! nat victim)\<lparr>present := False\<rparr>] ! nat newpage)
                             \<lparr>present := True, frame := frame (pgt S ! nat victim), modified := False\<rparr>],
                   frt := fs,
                   numpgwriteback := numpgwriteback S
                     + (if modified (pgt S ! nat victim) then 1 else 0)\<rparr>"
    by blast
  then have "numpgwriteback S'
               = numpgwriteback S + (if modified (pgt S ! nat victim) then 1 else 0)"
    by (rule ssubst) simp
  then show "numpgwriteback S'
               = numpgwriteback S + (if modified (pgt S ! nat victim) then 1 else 0)" .
next
  assume h: "well_formed pol S0 \<and> int p < numpags S0 \<and> \<not> present (pgt S0 ! p)
        \<and> page_number S0 va = int p
        \<and> sim_mmu pol da S0 va opa = Some (S1, pa)
        \<and> run pol S1 tr = Some S2 \<and> resident_during pol S1 tr p
        \<and> sim_mmu pol dd S2 vd opd = Some (S3, pd) \<and> \<not> present (pgt S3 ! p)"
  then have w: "well_formed pol S0" and p: "int p < numpags S0"
    and ab: "\<not> present (pgt S0 ! p)" and pn: "page_number S0 va = int p"
    and s1: "sim_mmu pol da S0 va opa = Some (S1, pa)"
    and r: "run pol S1 tr = Some S2" and d: "resident_during pol S1 tr p"
    and s3: "sim_mmu pol dd S2 vd opd = Some (S3, pd)" and ev: "\<not> present (pgt S3 ! p)"
    by simp_all
  from w obtain fl ol where i: "state_inv pol S0 fl ol" by (rule well_formed_state_inv)
  have pl: "p < length (pgt S0)" using p state_invD(5) [OF i] by simp
  have np: "nat (page_number S0 va) = p" using pn by simp
  have r0: "0 \<le> page_number S0 va" "page_number S0 va < numpags S0" using pn p by simp_all
  note g = sim_mmu_pages [OF s1 r0, unfolded np]
  note f = sim_mmu_frame [OF s1]
  have "\<not> (pol = LRU \<and> listfree S0 \<noteq> - 1 \<and> modified (pgt S0 ! p))"
  proof
    assume a: "pol = LRU \<and> listfree S0 \<noteq> - 1 \<and> modified (pgt S0 ! p)"
    then have "fl \<noteq> []" using state_inv_free_iff [OF i] by simp
    from state_inv_unmodified [OF i [unfolded a [THEN conjunct1]] this pl ab] a
    show False by simp
  qed
  with g(3) ab have m1: "modified (pgt S1 ! p) = (opa = CHR ''W'')" by simp
  have p1: "p < length (pgt S1)" "int p < numpags S1" using f pl p by simp_all
  from resident_modified [OF r d p1 g(2)] f
  have p2: "present (pgt S2 ! p)" "length (pgt S2) = length (pgt S0)" "numpags S2 = numpags S0"
    and m2: "modified (pgt S2 ! p) = (modified (pgt S1 ! p) \<or> writes_to S1 p tr)"
    by simp_all
  have z: "pagsz S1 = pagsz S0" using f by simp
  have m2': "modified (pgt S2 ! p) = (opa = CHR ''W'' \<or> writes_to S0 p tr)"
    using m2 m1 writes_to_cong [OF z] by simp
  have r3: "0 \<le> page_number S2 vd \<and> page_number S2 vd < numpags S2"
  proof (rule ccontr)
    assume n: "\<not> (0 \<le> page_number S2 vd \<and> page_number S2 vd < numpags S2)"
    have "pgt S3 = pgt S2" by (subst sim_mmu_illegal(1) [OF s3 n]) simp
    with p2(1) ev show False by simp
  qed
  then have r3': "0 \<le> page_number S2 vd" "page_number S2 vd < numpags S2" by simp_all
  note g3 = sim_mmu_pages [OF s3 r3']
  have ne: "p \<noteq> nat (page_number S2 vd)" using g3(2) ev by auto
  have pl2: "p < length (pgt S2)" using p2(2) pl by simp
  from g3(4) [OF pl2 ne] p2(1) ev
  have "numpgwriteback S3 = numpgwriteback S2 + (if modified (pgt S2 ! p) then 1 else 0)"
    by simp
  then show "numpgwriteback S3
            = numpgwriteback S2 + (if opa = CHR ''W'' \<or> writes_to S0 p tr then 1 else 0)"
    unfolding m2' .
qed

theorem write_back_law_witness:
  "replace_page (state_after FIFO [(0, 0, CHR ''W''), (0, 4096, CHR ''R'')]) 0 2 = Some (the (replace_page (state_after FIFO [(0, 0, CHR ''W''), (0, 4096, CHR ''R'')]) 0 2))
   \<and> well_formed FIFO (state_after FIFO []) \<and> int 0 < numpags (state_after FIFO [])
   \<and> \<not> present (pgt (state_after FIFO []) ! 0)
   \<and> page_number (state_after FIFO []) 0 = int 0
   \<and> sim_mmu FIFO 0 (state_after FIFO []) 0 CHR ''W'' = Some ((state_after FIFO [(0, 0, CHR ''W'')]), 0)
   \<and> run FIFO (state_after FIFO [(0, 0, CHR ''W'')]) [(0, 4096, CHR ''R'')] = Some (state_after FIFO [(0, 0, CHR ''W''), (0, 4096, CHR ''R'')])
   \<and> resident_during FIFO (state_after FIFO [(0, 0, CHR ''W'')]) [(0, 4096, CHR ''R'')] 0
   \<and> sim_mmu FIFO 0 (state_after FIFO [(0, 0, CHR ''W''), (0, 4096, CHR ''R'')]) 8192 CHR ''R'' = Some ((state_after FIFO [(0, 0, CHR ''W''), (0, 4096, CHR ''R''), (0, 8192, CHR ''R'')]), 0)
   \<and> \<not> present (pgt (state_after FIFO [(0, 0, CHR ''W''), (0, 4096, CHR ''R''), (0, 8192, CHR ''R'')]) ! 0)
   \<and> numpgwriteback (the (replace_page (state_after FIFO [(0, 0, CHR ''W''), (0, 4096, CHR ''R'')]) 0 2))
       = numpgwriteback (state_after FIFO [(0, 0, CHR ''W''), (0, 4096, CHR ''R'')]) + (if modified (pgt (state_after FIFO [(0, 0, CHR ''W''), (0, 4096, CHR ''R'')]) ! nat 0) then 1 else 0)
   \<and> numpgwriteback (state_after FIFO [(0, 0, CHR ''W''), (0, 4096, CHR ''R''), (0, 8192, CHR ''R'')])
       = numpgwriteback (state_after FIFO [(0, 0, CHR ''W''), (0, 4096, CHR ''R'')])
           + (if CHR ''W'' = CHR ''W'' \<or> writes_to (state_after FIFO []) 0 [(0, 4096, CHR ''R'')]
              then 1 else 0)"
proof -
  have r: "replace_page (state_after FIFO [(0, 0, CHR ''W''), (0, 4096, CHR ''R'')]) 0 2 = Some (the (replace_page (state_after FIFO [(0, 0, CHR ''W''), (0, 4096, CHR ''R'')]) 0 2))"
    by code_simp
  have h: "well_formed FIFO (state_after FIFO []) \<and> int 0 < numpags (state_after FIFO [])
   \<and> \<not> present (pgt (state_after FIFO []) ! 0)
   \<and> page_number (state_after FIFO []) 0 = int 0
   \<and> sim_mmu FIFO 0 (state_after FIFO []) 0 CHR ''W'' = Some ((state_after FIFO [(0, 0, CHR ''W'')]), 0)
   \<and> run FIFO (state_after FIFO [(0, 0, CHR ''W'')]) [(0, 4096, CHR ''R'')] = Some (state_after FIFO [(0, 0, CHR ''W''), (0, 4096, CHR ''R'')])
   \<and> resident_during FIFO (state_after FIFO [(0, 0, CHR ''W'')]) [(0, 4096, CHR ''R'')] 0
   \<and> sim_mmu FIFO 0 (state_after FIFO [(0, 0, CHR ''W''), (0, 4096, CHR ''R'')]) 8192 CHR ''R'' = Some ((state_after FIFO [(0, 0, CHR ''W''), (0, 4096, CHR ''R''), (0, 8192, CHR ''R'')]), 0)
   \<and> \<not> present (pgt (state_after FIFO [(0, 0, CHR ''W''), (0, 4096, CHR ''R''), (0, 8192, CHR ''R'')]) ! 0)"
    by code_simp
  note t = write_back_law [of "(state_after FIFO [(0, 0, CHR ''W''), (0, 4096, CHR ''R'')])" 0 2 "(the (replace_page (state_after FIFO [(0, 0, CHR ''W''), (0, 4096, CHR ''R'')]) 0 2))" FIFO "(state_after FIFO [])" 0 0 0 "CHR ''W''" "(state_after FIFO [(0, 0, CHR ''W'')])" 0
      "[(0, 4096, CHR ''R'')]" "(state_after FIFO [(0, 0, CHR ''W''), (0, 4096, CHR ''R'')])" 0 8192 "CHR ''R''" "(state_after FIFO [(0, 0, CHR ''W''), (0, 4096, CHR ''R''), (0, 8192, CHR ''R'')])" 0]
  note a = t [THEN conjunct1, rule_format, OF r]
  note b = t [THEN conjunct2, rule_format, OF h]
  from r h a b show ?thesis by blast
qed

section \<open>Illegal references\<close>

text \<open>
  C8. When the page number computed from the virtual address is outside the page table
  (at least \<^verbatim>\<open>numpags\<close>, or negative once the unsigned quotient is stored in the
  \<^verbatim>\<open>int\<close>, which is how a quotient of \<open>2 ^ 31\<close> or more reads), the page size being
  non-zero so that the division is defined, \<^verbatim>\<open>sim_mmu\<close> returns the all-ones address
  \<^verbatim>\<open>~0U\<close> and a state that differs from the given one in the counter of illegal
  references only, which is incremented (and wraps as a 32-bit counter does): no page,
  frame, list or other counter changes, and the fault handler does not run. This holds
  in the four variants.
\<close>

theorem illegal_reference:
  assumes "to_unsigned (pagsz S) \<noteq> 0"
    and "page_number S virtual_addr < 0 \<or> numpags S \<le> page_number S virtual_addr"
  shows "sim_mmu pol draw S virtual_addr op
           = Some (S\<lparr>numillegalrefs := numillegalrefs S + 1\<rparr>, NOT 0)
         \<and> NOT 0 = (0xFFFFFFFF :: 32 word)"
  using assms by (auto simp add: sim_mmu_def)

theorem illegal_reference_witness:
  "to_unsigned (pagsz ((fresh_system 4096 4 3)\<lparr>numillegalrefs := 0x7FFFFFFF\<rparr>)) \<noteq> 0
   \<and> (page_number ((fresh_system 4096 4 3)\<lparr>numillegalrefs := 0x7FFFFFFF\<rparr>) 20000 < 0
        \<or> numpags ((fresh_system 4096 4 3)\<lparr>numillegalrefs := 0x7FFFFFFF\<rparr>)
             \<le> page_number ((fresh_system 4096 4 3)\<lparr>numillegalrefs := 0x7FFFFFFF\<rparr>) 20000)
   \<and> sim_mmu FIFO 0 ((fresh_system 4096 4 3)\<lparr>numillegalrefs := 0x7FFFFFFF\<rparr>) 20000 CHR ''R''
       = Some ((fresh_system 4096 4 3)\<lparr>numillegalrefs := 0x80000000\<rparr>, 0xFFFFFFFF)
   \<and> sint (0x7FFFFFFF :: 32 word) = 2147483647
   \<and> sint (0x80000000 :: 32 word) = - 2147483648"
proof -
  let ?S = "(fresh_system 4096 4 3)\<lparr>numillegalrefs := 0x7FFFFFFF\<rparr>"
  have a: "to_unsigned (pagsz ?S) \<noteq> 0"
    by (simp add: fresh_system_def to_unsigned_def)
  have b: "page_number ?S 20000 < 0 \<or> numpags ?S \<le> page_number ?S 20000"
    by (simp add: fresh_system_def page_number_def to_unsigned_def to_int_def)
  have c: "numillegalrefs ?S + 1 = 0x80000000" by simp
  have d: "sint (0x7FFFFFFF :: 32 word) = 2147483647"
    "sint (0x80000000 :: 32 word) = - 2147483648" by simp_all
  show ?thesis
    using a b d illegal_reference [OF a b, of FIFO 0 "CHR ''R''"] unfolding c by simp
qed

section \<open>The translation\<close>

text \<open>
  C9. In a well-formed state of any variant, for a virtual address whose page number is
  in the page table, \<^verbatim>\<open>sim_mmu\<close> returns. In the state it returns the accessed page
  is present, in a frame of the frame table that holds this page; the physical address
  returned is that frame times the page size plus the remainder of the virtual address
  by the page size, as \<^verbatim>\<open>unsigned\<close> arithmetic computes it (modulo \<open>2 ^ 32\<close>). The
  state returned is well-formed.
\<close>

theorem translation_formula:
  assumes w: "well_formed pol S"
    and r: "0 \<le> page_number S va" "page_number S va < numpags S"
  shows "\<exists>S' pa. sim_mmu pol draw S va op = Some (S', pa)
           \<and> present (pgt S' ! nat (page_number S va))
           \<and> 0 \<le> frame (pgt S' ! nat (page_number S va))
           \<and> frame (pgt S' ! nat (page_number S va)) < numframes S
           \<and> page (frt S' ! nat (frame (pgt S' ! nat (page_number S va)))) = page_number S va
           \<and> pa = to_unsigned (frame (pgt S' ! nat (page_number S va))) * to_unsigned (pagsz S)
                    + va mod to_unsigned (pagsz S)
           \<and> well_formed pol S'"
proof -
  let ?p = "nat (page_number S va)"
  from w obtain fl ol where i: "state_inv pol S fl ol" by (rule well_formed_state_inv)
  from sim_mmu_inv [OF i, of draw va op] obtain S' pa fl' ol' where
    s: "sim_mmu pol draw S va op = Some (S', pa)" and j: "state_inv pol S' fl' ol'"
    by blast
  note f = sim_mmu_frame [OF s]
  note g = sim_mmu_pages [OF s r]
  from g(1) f have pl: "?p < length (pgt S')" by simp
  note h = state_inv_page [OF j pl g(2)]
  from state_inv_in_range(2) [OF j h(2)] state_invD(4) [OF j] f h(1)
  have b: "frame (pgt S' ! ?p) < numframes S" by simp
  have "pa = to_unsigned (frame (pgt S' ! ?p)) * to_unsigned (pagsz S)
               + va mod to_unsigned (pagsz S)"
    unfolding g(5) to_unsigned_arith page_offset_def to_unsigned_to_int ..
  moreover have "page (frt S' ! nat (frame (pgt S' ! ?p))) = page_number S va"
    using h(3) r(1) by simp
  ultimately show ?thesis
    using s g(2) h(1) b state_inv_well_formed [OF j] by blast
qed

theorem translation_formula_witness:
  "well_formed FIFO (state_after FIFO [])
   \<and> 0 \<le> page_number (state_after FIFO []) 5000
   \<and> page_number (state_after FIFO []) 5000 < numpags (state_after FIFO [])
   \<and> (\<exists>S' pa. sim_mmu FIFO 0 (state_after FIFO []) 5000 CHR ''R'' = Some (S', pa)
           \<and> present (pgt S' ! nat (page_number (state_after FIFO []) 5000))
           \<and> 0 \<le> frame (pgt S' ! nat (page_number (state_after FIFO []) 5000))
           \<and> frame (pgt S' ! nat (page_number (state_after FIFO []) 5000)) < numframes (state_after FIFO [])
           \<and> page (frt S' ! nat (frame (pgt S' ! nat (page_number (state_after FIFO []) 5000))))
               = page_number (state_after FIFO []) 5000
           \<and> pa = to_unsigned (frame (pgt S' ! nat (page_number (state_after FIFO []) 5000)))
                      * to_unsigned (pagsz (state_after FIFO []))
                    + 5000 mod to_unsigned (pagsz (state_after FIFO []))
           \<and> well_formed FIFO S')"
proof -
  have h: "well_formed FIFO (state_after FIFO [])"
    "0 \<le> page_number (state_after FIFO []) 5000"
    "page_number (state_after FIFO []) 5000 < numpags (state_after FIFO [])"
    by code_simp+
  note t = translation_formula [OF h, of 0 "CHR ''R''"]
  show ?thesis by (intro conjI h t)
qed

section \<open>The free list only shrinks\<close>

text \<open>
  C10. Once \<^verbatim>\<open>listfree\<close> is \<open>- 1\<close> it is \<open>- 1\<close> after every trace of accesses, and the
  free list is empty. From a well-formed state, the free frames after a trace are among
  the free frames before it: no access gives a frame back. One access from a
  well-formed state returns, and takes the oldest frame off the free list when it faults
  (the page is in the table and absent) and leaves the list as it is otherwise; the
  list is empty exactly when \<^verbatim>\<open>listfree\<close> is \<open>- 1\<close>, so the fault that takes the last
  free frame sets \<^verbatim>\<open>listfree\<close> to \<open>- 1\<close>. With \<^verbatim>\<open>listfree = - 1\<close> the fault handler is
  the eviction path: it counts the fault, chooses a victim and replaces it.
\<close>

theorem free_ring_only_shrinks:
  "(listfree S = - 1 \<longrightarrow> run pol S tr = Some S' \<longrightarrow> listfree S' = - 1 \<and> free_ring S' = [])
   \<and> (well_formed pol T \<longrightarrow> run pol T tr' = Some T' \<longrightarrow>
        set (free_ring T') \<subseteq> set (free_ring T))
   \<and> (well_formed pol U \<longrightarrow>
        (\<exists>U' pa. sim_mmu pol dr U va' op = Some (U', pa)
           \<and> free_ring U'
               = (if 0 \<le> page_number U va' \<and> page_number U va' < numpags U
                     \<and> \<not> present (pgt U ! nat (page_number U va'))
                  then tl (free_ring U) else free_ring U)
           \<and> (listfree U' = - 1 \<longleftrightarrow> free_ring U' = [])))
   \<and> (listfree S = - 1 \<longrightarrow>
        handle_page_fault pol draw S va
          = (if to_unsigned (pagsz S) = 0 then None
             else case choose_page_to_be_replaced pol draw
                         (S\<lparr>numpagefaults := numpagefaults S + 1\<rparr>) of
                    None \<Rightarrow> None
                  | Some (S1, victim) \<Rightarrow> replace_page S1 victim (page_number S va)))"
proof (intro conjI impI)
  assume "listfree S = - 1" "run pol S tr = Some S'"
  from run_listfree [OF this(2,1)] show "listfree S' = - 1" .
  then show "free_ring S' = []" by (simp add: free_ring_def ring_def)
next
  assume w: "well_formed pol T" and r: "run pol T tr' = Some T'"
  from w obtain fl ol where i: "state_inv pol T fl ol" by (rule well_formed_state_inv)
  from run_inv [OF i, of tr'] r obtain fl' ol' where
    j: "state_inv pol T' fl' ol'" and s: "set fl' \<subseteq> set fl" by auto
  show "set (free_ring T') \<subseteq> set (free_ring T)"
    unfolding state_inv_free_ring [OF i] state_inv_free_ring [OF j] using s by auto
next
  assume w: "well_formed pol U"
  let ?fault = "0 \<le> page_number U va' \<and> page_number U va' < numpags U
                  \<and> \<not> present (pgt U ! nat (page_number U va'))"
  from w obtain fl ol where i: "state_inv pol U fl ol" by (rule well_formed_state_inv)
  from sim_mmu_inv [OF i, of dr va' op] obtain U' pa ol' where
    s: "sim_mmu pol dr U va' op = Some (U', pa)"
    and j: "state_inv pol U' (if ?fault then tl fl else fl) ol'"
    by blast
  have "free_ring U' = (if ?fault then tl (free_ring U) else free_ring U)"
    unfolding state_inv_free_ring [OF i] state_inv_free_ring [OF j] by (simp add: map_tl)
  moreover have "listfree U' = - 1 \<longleftrightarrow> free_ring U' = []"
    unfolding state_inv_free_ring [OF j] state_inv_free_iff [OF j] by simp
  ultimately show "\<exists>U' pa. sim_mmu pol dr U va' op = Some (U', pa)
           \<and> free_ring U'
               = (if 0 \<le> page_number U va' \<and> page_number U va' < numpags U
                     \<and> \<not> present (pgt U ! nat (page_number U va'))
                  then tl (free_ring U) else free_ring U)
           \<and> (listfree U' = - 1 \<longleftrightarrow> free_ring U' = [])"
    using s by blast
next
  assume "listfree S = - 1"
  then show "handle_page_fault pol draw S va
          = (if to_unsigned (pagsz S) = 0 then None
             else case choose_page_to_be_replaced pol draw
                         (S\<lparr>numpagefaults := numpagefaults S + 1\<rparr>) of
                    None \<Rightarrow> None
                  | Some (S1, victim) \<Rightarrow> replace_page S1 victim (page_number S va))"
    by (simp add: handle_page_fault_def Let_def split: option.splits)
qed

theorem free_ring_only_shrinks_witness:
  "listfree (state_after FIFO [(0, 0, CHR ''R''), (0, 4096, CHR ''W'')]) = - 1
   \<and> run FIFO (state_after FIFO [(0, 0, CHR ''R''), (0, 4096, CHR ''W'')]) [(0, 8192, CHR ''R'')]
       = Some (state_after FIFO [(0, 0, CHR ''R''), (0, 4096, CHR ''W''), (0, 8192, CHR ''R'')])
   \<and> well_formed FIFO (state_after FIFO [])
   \<and> run FIFO (state_after FIFO []) [(0, 0, CHR ''R'')] = Some (state_after FIFO [(0, 0, CHR ''R'')])
   \<and> well_formed FIFO (state_after FIFO [(0, 0, CHR ''R'')])
   \<and> listfree (state_after FIFO [(0, 0, CHR ''R''), (0, 4096, CHR ''W''), (0, 8192, CHR ''R'')]) = - 1
   \<and> free_ring (state_after FIFO [(0, 0, CHR ''R''), (0, 4096, CHR ''W''), (0, 8192, CHR ''R'')]) = []
   \<and> set (free_ring (state_after FIFO [(0, 0, CHR ''R'')])) \<subseteq> set (free_ring (state_after FIFO []))
   \<and> (\<exists>U' pa. sim_mmu FIFO 0 (state_after FIFO [(0, 0, CHR ''R'')]) 4096 CHR ''R'' = Some (U', pa)
           \<and> free_ring U'
               = (if 0 \<le> page_number (state_after FIFO [(0, 0, CHR ''R'')]) 4096 \<and> page_number (state_after FIFO [(0, 0, CHR ''R'')]) 4096 < numpags (state_after FIFO [(0, 0, CHR ''R'')])
                     \<and> \<not> present (pgt (state_after FIFO [(0, 0, CHR ''R'')]) ! nat (page_number (state_after FIFO [(0, 0, CHR ''R'')]) 4096))
                  then tl (free_ring (state_after FIFO [(0, 0, CHR ''R'')])) else free_ring (state_after FIFO [(0, 0, CHR ''R'')]))
           \<and> (listfree U' = - 1 \<longleftrightarrow> free_ring U' = []))
   \<and> handle_page_fault FIFO 0 (state_after FIFO [(0, 0, CHR ''R''), (0, 4096, CHR ''W'')]) 8192
       = (if to_unsigned (pagsz (state_after FIFO [(0, 0, CHR ''R''), (0, 4096, CHR ''W'')])) = 0 then None
          else case choose_page_to_be_replaced FIFO 0
                      ((state_after FIFO [(0, 0, CHR ''R''), (0, 4096, CHR ''W'')])\<lparr>numpagefaults := numpagefaults (state_after FIFO [(0, 0, CHR ''R''), (0, 4096, CHR ''W'')]) + 1\<rparr>) of
                 None \<Rightarrow> None
               | Some (S1, victim) \<Rightarrow> replace_page S1 victim (page_number (state_after FIFO [(0, 0, CHR ''R''), (0, 4096, CHR ''W'')]) 8192))"
proof -
  have h: "listfree (state_after FIFO [(0, 0, CHR ''R''), (0, 4096, CHR ''W'')]) = - 1"
    "run FIFO (state_after FIFO [(0, 0, CHR ''R''), (0, 4096, CHR ''W'')]) [(0, 8192, CHR ''R'')]
       = Some (state_after FIFO [(0, 0, CHR ''R''), (0, 4096, CHR ''W''), (0, 8192, CHR ''R'')])"
    "well_formed FIFO (state_after FIFO [])"
    "run FIFO (state_after FIFO []) [(0, 0, CHR ''R'')] = Some (state_after FIFO [(0, 0, CHR ''R'')])"
    "well_formed FIFO (state_after FIFO [(0, 0, CHR ''R'')])"
    by code_simp+
  note t = free_ring_only_shrinks [where S = "(state_after FIFO [(0, 0, CHR ''R''), (0, 4096, CHR ''W'')])" and pol = FIFO
      and tr = "[(0, 8192, CHR ''R'')]" and S' = "(state_after FIFO [(0, 0, CHR ''R''), (0, 4096, CHR ''W''), (0, 8192, CHR ''R'')])"
      and T = "(state_after FIFO [])" and tr' = "[(0, 0, CHR ''R'')]" and T' = "(state_after FIFO [(0, 0, CHR ''R'')])"
      and U = "(state_after FIFO [(0, 0, CHR ''R'')])" and dr = 0 and va' = 4096 and op = "CHR ''R''"
      and draw = 0 and va = 8192]
  note a = t [THEN conjunct1, rule_format, OF h(1,2)]
  note b = t [THEN conjunct2, THEN conjunct1, rule_format, OF h(3,4)]
  note u = t [THEN conjunct2, THEN conjunct2, THEN conjunct1, rule_format, OF h(5)]
  note c = t [THEN conjunct2, THEN conjunct2, THEN conjunct2, rule_format, OF h(1)]
  show ?thesis by (intro conjI h a [THEN conjunct1] a [THEN conjunct2] b u c)
qed

end
